theory Spec2Isabelle
  imports Complex_Main "HOL-Library.Multiset"
begin

section \<open>The page background animation of \<open>src/scripts/page-background.ts\<close>\<close>

text \<open>
  A shallow embedding of the class \<open>PageBackground\<close>: the easing function, the
  sampler, the grid builder with its seed step, the per-frame redraw and the resize.

  JavaScript numbers are idealised as real numbers: rounding of IEEE doubles is not
  modelled. The one non-finite value the code can produce from finite inputs is kept as
  a value of its own: \<open>NaN\<close>, the result of \<open>0 / 0\<close> and of \<open>Math.sin(Infinity)\<close>, both of
  which arise in \<open>easeInOutSine\<close> when the interval has length zero.

  The two impure calls of the class are read from an environment: the \<open>i\<close>-th call of
  \<open>Math.random()\<close> returns \<open>math_random e i\<close> and the \<open>i\<close>-th call of \<open>Date.now()\<close>
  returns \<open>date_now e i\<close>; the state counts the calls made so far (\<open>rng\<close>, \<open>clk\<close>). The
  contract of \<open>Math.random\<close>, a value in \<open>[0, 1)\<close>, is a hypothesis of the theorems that
  need it. The values read from the document (the body's width and height, the first
  segment of the lower-cased title) are parameters.

  Arrays are lists of any length (the limit of \<open>2^32 - 1\<close> elements of a JavaScript
  array is not modelled), and a count is a natural number, as both callers of the
  sampler pass one.
\<close>

subsection \<open>Numbers and the easing function\<close>

datatype number = NaN | Num real

text \<open>\<open>alpha <= 0\<close> of the source: every comparison with \<open>NaN\<close> is false.\<close>

fun number_le :: "number \<Rightarrow> real \<Rightarrow> bool" where
  "number_le NaN b = False"
| "number_le (Num a) b = (a \<le> b)"

text \<open>
  \<open>easeInOutSine(timestamp, start, end)\<close>, lines 129 to 148. The two divisions are written
  out where the divisor is zero: \<open>elapsedAfterEnd / 0\<close> is \<open>Infinity\<close> (the numerator is
  positive in that branch) and its sine is \<open>NaN\<close>; \<open>0 / 0\<close> is \<open>NaN\<close>, and \<open>Math.max(0, NaN)\<close>
  is \<open>NaN\<close>.
\<close>

definition easeInOutSine :: "real \<Rightarrow> real \<Rightarrow> real \<Rightarrow> number" where
  "easeInOutSine timestamp start end =
     (let totalDuration = end - start in
      if timestamp < start then Num 0
      else if timestamp > end then
        (let elapsedAfterEnd = timestamp - end in
         if totalDuration / 2 = 0 then NaN
         else (let progressAfterEnd = elapsedAfterEnd / (totalDuration / 2)
               in Num (sin (progressAfterEnd * pi))))
      else if totalDuration = 0 then NaN
      else (let progress = (timestamp - start) / totalDuration
            in Num (max 0 (0.5 - 0.5 * cos (progress * pi)))))"

subsection \<open>Errors and the environment\<close>

text \<open>
  \<open>AstroError\<close> carries its message; \<open>TypeError\<close> is what reading a property of
  \<open>undefined\<close> raises. A method that throws returns \<open>Inl\<close> of the error and of the state
  as the throw leaves it: the object is mutated in place, so what was written before
  the throw stays written.
\<close>

datatype error = AstroError string | TypeError

record env =
  math_random :: "nat \<Rightarrow> real"
  date_now :: "nat \<Rightarrow> real"

subsection \<open>The sampler\<close>

text \<open>
  \<open>arr[i]\<close>: \<open>undefined\<close> (here \<open>None\<close>) outside the array. \<open>taken\<close> is created by
  \<open>new Array(len)\<close>, which has no element of its own, so it is the empty map;
  \<open>x in taken ? taken[x] : x\<close> is \<open>taken_at taken x\<close>.
\<close>

definition arr_at :: "'a list \<Rightarrow> int \<Rightarrow> 'a option" where
  "arr_at arr i = (if 0 \<le> i \<and> i < int (length arr) then Some (arr ! nat i) else None)"

definition taken_at :: "(int \<rightharpoonup> int) \<Rightarrow> int \<Rightarrow> int" where
  "taken_at taken i = (case taken i of Some t \<Rightarrow> t | None \<Rightarrow> i)"

text \<open>
  The loop \<open>while (n--)\<close> of lines 167 to 171: the test reads \<open>n\<close> and decrements it, so
  the body runs with \<open>n\<close> already one less. \<open>k\<close> counts the calls of \<open>Math.random()\<close>.
  \<open>result\<close> is \<open>new Array(n)\<close>: \<open>n\<close> holes, filled from the last index down (the index
  written is always inside the array when the loop is entered from
  \<open>getRandomAmountFromArray\<close>).
\<close>

fun sample_loop ::
  "(nat \<Rightarrow> real) \<Rightarrow> 'a list \<Rightarrow> nat \<Rightarrow> int \<Rightarrow> 'a option list \<Rightarrow> (int \<rightharpoonup> int) \<Rightarrow> nat
     \<Rightarrow> 'a option list \<times> nat" where
  "sample_loop rnd arr 0 len result taken k = (result, k)"
| "sample_loop rnd arr (Suc n) len result taken k =
     (let xi = \<lfloor>rnd k * real_of_int len\<rfloor>;
          result' = result[n := arr_at arr (taken_at taken xi)];
          len' = len - 1;
          taken' = taken(xi \<mapsto> taken_at taken len')
      in sample_loop rnd arr n len' result' taken' (Suc k))"

text \<open>
  \<open>getRandomAmountFromArray(arr, n)\<close>, lines 156 to 174. Both callers pass \<open>n\<close>, a
  non-negative integer; the default \<open>n = 20\<close> is never used. The result is the array
  and the number of random draws made so far.
\<close>

definition getRandomAmountFromArray ::
  "(nat \<Rightarrow> real) \<Rightarrow> 'a list \<Rightarrow> nat \<Rightarrow> nat \<Rightarrow> error + ('a option list \<times> nat)" where
  "getRandomAmountFromArray rnd arr n k =
     (let len = int (length arr);
          result = replicate n None;
          taken = Map.empty
      in if int n > len
         then Inl (AstroError ''getRandomAmountFromArray: more elements taken than available'')
         else Inr (sample_loop rnd arr n len result taken k))"

subsection \<open>The state of a \<open>PageBackground\<close>\<close>

record letter_position =
  x :: nat
  y :: nat
  letter :: char

record letter_instance = letter_position +
  timestamp :: real
  fadeout :: real

text \<open>
  The calls made on the 2D context, oldest first. \<open>Configure\<close> is \<open>configureContext\<close>
  (font, alignment, baseline, blur); \<open>ClearRect w h\<close> is \<open>clearRect(0, 0, w, h)\<close>;
  \<open>FillStyle a\<close> and \<open>ShadowColor a\<close> assign \<open>rgba(primaryRgb, a)\<close>, the colour being fixed;
  \<open>FillText c x y\<close> is \<open>fillText(c, x, y)\<close>.
\<close>

datatype ctx_op =
    Configure
  | ClearRect nat nat
  | FillStyle number
  | ShadowColor number
  | FillText char nat nat

text \<open>
  The fields of the class that the animation reads and writes. \<open>animationFrameId\<close> and
  \<open>primaryRgb\<close> are left out: the first belongs to the scheduling of frames, the second
  is a constant string.
\<close>

record page_background =
  width :: nat
  height :: nat
  canvas_width :: nat
  canvas_height :: nat
  letterPositions :: "letter_position list"
  letterInstances :: "letter_instance list"
  overlayCtx :: "ctx_op list"
  rng :: nat
  clk :: nat

type_synonym outcome = "(error \<times> page_background) + page_background"

fun state_of :: "outcome \<Rightarrow> page_background" where
  "state_of (Inl (err, st)) = st"
| "state_of (Inr st) = st"

definition LETTER_FADE_DURATION :: "real \<times> real" where
  "LETTER_FADE_DURATION = (2, 7)"

text \<open>
  \<open>LETTER_FADE_DURATION[0] + Math.random() * (LETTER_FADE_DURATION[1] - LETTER_FADE_DURATION[0])\<close>,
  written twice in the source (lines 111 and 197), for the random value \<open>r\<close>.
\<close>

definition animLength :: "real \<Rightarrow> real" where
  "animLength r =
     fst LETTER_FADE_DURATION + r * (snd LETTER_FADE_DURATION - fst LETTER_FADE_DURATION)"

definition configureContext :: "page_background \<Rightarrow> page_background" where
  "configureContext st = st\<lparr>overlayCtx := overlayCtx st @ [Configure]\<rparr>"

subsection \<open>\<open>initBackground\<close>: the grid and the seed\<close>

text \<open>
  The two nested loops of lines 85 to 94, the inner one over the column \<open>j\<close>, the outer
  one over the row \<open>i\<close>; each iteration pushes one cell. \<open>text\<close> is never empty here
  (\<open>initBackground\<close> falls back to \<open>spectre\<close>).
\<close>

function letters_loop ::
  "nat \<Rightarrow> nat \<Rightarrow> nat \<Rightarrow> string \<Rightarrow> letter_position list \<Rightarrow> letter_position list" where
  "letters_loop i j letters text acc =
     (if j < letters
      then letters_loop i (j + 1) letters text
             (acc @ [\<lparr>x = j * 17, y = i * 35, letter = text ! (j mod length text)\<rparr>])
      else acc)"
  by pat_completeness auto
termination
  by (relation "measure (\<lambda>(i, j, letters, text, acc). letters - j)") auto

function lines_loop ::
  "nat \<Rightarrow> nat \<Rightarrow> nat \<Rightarrow> string \<Rightarrow> letter_position list \<Rightarrow> letter_position list" where
  "lines_loop i lines letters text acc =
     (if i < lines
      then lines_loop (i + 1) lines letters text (letters_loop i 0 letters text acc)
      else acc)"
  by pat_completeness auto
termination
  by (relation "measure (\<lambda>(i, lines, letters, text, acc). lines - i)") auto

text \<open>
  \<open>Number.parseInt(v.toFixed())\<close> for \<open>0 \<le> v < 10^21\<close>: \<open>toFixed\<close> with no digits gives the
  integer nearest to \<open>v\<close>, the larger one when two are equally near.
\<close>

definition parseInt_toFixed :: "real \<Rightarrow> int" where
  "parseInt_toFixed v = \<lfloor>v + 1 / 2\<rfloor>"

text \<open>
  The loop of lines 105 to 120 over the sampled cells. A hole of the sampled array is
  \<open>undefined\<close>, and \<open>letter.letter\<close> then raises after the two colours were assigned.
  \<open>Math.random()\<close> is called once and \<open>Date.now()\<close> twice per cell, in that order.
\<close>

fun seed_loop :: "env \<Rightarrow> letter_position option list \<Rightarrow> page_background \<Rightarrow> outcome" where
  "seed_loop e [] st = Inr st"
| "seed_loop e (None # rest) st =
     Inl (TypeError, st\<lparr>overlayCtx := overlayCtx st @ [FillStyle (Num 0), ShadowColor (Num 0)]\<rparr>)"
| "seed_loop e (Some p # rest) st =
     (let st1 = st\<lparr>overlayCtx := overlayCtx st @
                   [FillStyle (Num 0), ShadowColor (Num 0), FillText (letter p) (x p) (y p)]\<rparr>;
          len = animLength (math_random e (rng st1));
          st2 = st1\<lparr>rng := rng st1 + 1\<rparr>;
          inst = \<lparr>x = x p, y = y p, letter = letter p,
                  timestamp = date_now e (clk st2),
                  fadeout = date_now e (clk st2 + 1) + len * 1000\<rparr>
      in seed_loop e rest
           (st2\<lparr>clk := clk st2 + 2, letterInstances := letterInstances st2 @ [inst]\<rparr>))"

text \<open>
  \<open>initBackground\<close>, lines 76 to 121. \<open>title\<close> is
  \<open>document.title.toLowerCase().split(' | ')[0]\<close>. The cells are pushed onto
  \<open>letterPositions\<close> and the instances onto \<open>letterInstances\<close> as they are.
\<close>

definition initBackground :: "env \<Rightarrow> string \<Rightarrow> page_background \<Rightarrow> outcome" where
  "initBackground e title st =
     (let text = (if title = [] then ''spectre'' else title);
          letters = nat \<lceil>real (width st) / 17\<rceil>;
          lines = nat \<lceil>real (height st) / 35\<rceil>;
          st1 = st\<lparr>letterPositions := lines_loop 0 lines letters text (letterPositions st)\<rparr>
      in case getRandomAmountFromArray (math_random e) (letterPositions st1)
                (nat (parseInt_toFixed (real lines * 0.75))) (rng st1) of
           Inl err \<Rightarrow> Inl (err, st1)
         | Inr (randomLetters, k) \<Rightarrow>
             seed_loop e randomLetters (configureContext (st1\<lparr>rng := k\<rparr>)))"

text \<open>
  The constructor, lines 42 to 64, for a canvas whose 2D context exists: the fields
  are initialised from the document's width \<open>w\<close> and height \<open>h\<close>, then \<open>initBackground\<close>
  runs. The first frame is requested afterwards.
\<close>

definition new_PageBackground :: "env \<Rightarrow> nat \<Rightarrow> nat \<Rightarrow> string \<Rightarrow> outcome" where
  "new_PageBackground e w h title =
     initBackground e title
       \<lparr>width = w, height = h, canvas_width = w, canvas_height = h,
        letterPositions = [], letterInstances = [], overlayCtx = [], rng = 0, clk = 0\<rparr>"

subsection \<open>\<open>redrawBackground\<close>: one frame\<close>

text \<open>\<open>xs.splice(i, 1)\<close>.\<close>

definition splice1 :: "nat \<Rightarrow> 'a list \<Rightarrow> 'a list" where
  "splice1 i xs = take i xs @ drop (Suc i) xs"

text \<open>Lines 201 to 203: the two colours and the text of one letter.\<close>

definition fillLetter :: "number \<Rightarrow> letter_instance \<Rightarrow> page_background \<Rightarrow> page_background" where
  "fillLetter alpha l st =
     st\<lparr>overlayCtx := overlayCtx st @
          [FillStyle alpha, ShadowColor alpha, FillText (letter l) (x l) (y l)]\<rparr>"

text \<open>
  The loop \<open>for (const letter of this.letterInstances)\<close>, lines 183 to 204. The array
  iterator keeps an index \<open>i\<close> and reads the array's current length and element at each
  step, so the \<open>splice\<close> and the \<open>push\<close> of the body are seen by the iteration.
  \<open>indexOf(letter)\<close> compares object identities; every element of the array is an object
  of its own, so it is \<open>i\<close>. In the object literal of lines 192 to 198 the fields are
  evaluated in order: \<open>randomLetter[0].x\<close> raises before \<open>Math.random()\<close> is called.
\<close>

function redraw_loop :: "env \<Rightarrow> real \<Rightarrow> nat \<Rightarrow> page_background \<Rightarrow> outcome" where
  "redraw_loop e now i st =
     (if length (letterInstances st) \<le> i then Inr st
      else
        (let l = letterInstances st ! i in
         if fadeout l > now then redraw_loop e now (i + 1) st
         else
           (let alpha = easeInOutSine now (timestamp l) (fadeout l) in
            if number_le alpha 0 \<and> now > fadeout l then
              (let st1 = st\<lparr>letterInstances := splice1 i (letterInstances st)\<rparr> in
               case getRandomAmountFromArray (math_random e) (letterPositions st1) 1 (rng st1) of
                 Inl err \<Rightarrow> Inl (err, st1)
               | Inr (randomLetter, k) \<Rightarrow>
                   (case arr_at randomLetter 0 of
                      Some (Some p) \<Rightarrow>
                        (let inst = \<lparr>x = x p, y = y p, letter = letter p,
                                      timestamp = now,
                                      fadeout = now + animLength (math_random e k) * 1000\<rparr>;
                             st2 = st1\<lparr>rng := k + 1,
                                       letterInstances := letterInstances st1 @ [inst]\<rparr>
                         in redraw_loop e now (i + 1) (fillLetter alpha l st2))
                    | _ \<Rightarrow> Inl (TypeError, st1\<lparr>rng := k\<rparr>)))
            else redraw_loop e now (i + 1) (fillLetter alpha l st))))"
  by pat_completeness auto
termination
  apply (relation "measure (\<lambda>(e, now, i, st). length (letterInstances st) - i)")
     apply (auto simp: fillLetter_def splice1_def)
  done

text \<open>\<open>redrawBackground\<close>, lines 179 to 206; the next frame is requested afterwards.\<close>

definition redrawBackground :: "env \<Rightarrow> page_background \<Rightarrow> outcome" where
  "redrawBackground e st =
     (let st1 = st\<lparr>overlayCtx := overlayCtx st @ [ClearRect (canvas_width st) (canvas_height st)]\<rparr>;
          now = date_now e (clk st1);
          st2 = st1\<lparr>clk := clk st1 + 1\<rparr>
      in redraw_loop e now 0 st2)"

text \<open>
  The frame loop: each frame runs \<open>redrawBackground\<close>, which requests the next one as
  its last statement; a frame that throws requests none.
\<close>

fun ticks :: "env \<Rightarrow> nat \<Rightarrow> page_background \<Rightarrow> outcome" where
  "ticks e 0 st = Inr st"
| "ticks e (Suc n) st =
     (case redrawBackground e st of Inl err \<Rightarrow> Inl err | Inr st' \<Rightarrow> ticks e n st')"

subsection \<open>\<open>resizeBackground\<close>\<close>

text \<open>Lines 211 to 230, for the document's new width \<open>w\<close> and height \<open>h\<close>.\<close>

definition resizeBackground :: "env \<Rightarrow> nat \<Rightarrow> nat \<Rightarrow> string \<Rightarrow> page_background \<Rightarrow> outcome" where
  "resizeBackground e w h title st =
     (let st1 = st\<lparr>width := w, height := h\<rparr>;
          st2 = st1\<lparr>canvas_width := width st1, canvas_height := height st1\<rparr>;
          st3 = st2\<lparr>overlayCtx := overlayCtx st2 @ [ClearRect (canvas_width st2) (canvas_height st2)]\<rparr>;
          st4 = st3\<lparr>letterInstances := [], letterPositions := []\<rparr>
      in initBackground e title st4)"

subsection \<open>Notions used to state the properties\<close>

text \<open>
  None of these is part of the program: they name what the theorems talk about. \<open>cell\<close>
  is the cell of row \<open>i\<close> and column \<open>j\<close>; \<open>grid_of\<close> the grid of a viewport in row-major
  order; \<open>target\<close> the number of cells the seed asks the sampler for; \<open>replacement\<close>
  the instance that line 192 pushes for the sampled cell \<open>p\<close> and the \<open>k\<close>-th random value;
  \<open>draw_ops\<close> the three context calls that draw one instance at the time \<open>now\<close>;
  \<open>retires\<close> the test of line 188.
\<close>

definition cell :: "string \<Rightarrow> nat \<Rightarrow> nat \<Rightarrow> letter_position" where
  "cell s i j = \<lparr>x = j * 17, y = i * 35, letter = s ! (j mod length s)\<rparr>"

definition grid_of :: "nat \<Rightarrow> nat \<Rightarrow> string \<Rightarrow> letter_position list" where
  "grid_of w h title =
     concat (map (\<lambda>r. map (cell (if title = [] then ''spectre'' else title) r)
                          [0..<nat \<lceil>real w / 17\<rceil>])
                 [0..<nat \<lceil>real h / 35\<rceil>])"

definition target :: "nat \<Rightarrow> nat" where
  "target h = nat (parseInt_toFixed (real (nat \<lceil>real h / 35\<rceil>) * 0.75))"

definition replacement :: "env \<Rightarrow> real \<Rightarrow> letter_position \<Rightarrow> nat \<Rightarrow> letter_instance" where
  "replacement e now p k =
     \<lparr>x = x p, y = y p, letter = letter p, timestamp = now,
      fadeout = now + animLength (math_random e k) * 1000\<rparr>"

definition draw_ops :: "real \<Rightarrow> letter_instance \<Rightarrow> ctx_op list" where
  "draw_ops now l =
     (let alpha = easeInOutSine now (timestamp l) (fadeout l)
      in [FillStyle alpha, ShadowColor alpha, FillText (letter l) (x l) (y l)])"

definition retires :: "real \<Rightarrow> letter_instance \<Rightarrow> bool" where
  "retires now l =
     (number_le (easeInOutSine now (timestamp l) (fadeout l)) 0 \<and> now > fadeout l)"

text \<open>
  \<open>tick_drawn now xs\<close>: the instances of the active list \<open>xs\<close> that the loop of a tick at
  the time \<open>now\<close> draws, in order, as a function of the list alone. An instance whose
  \<open>fadeout\<close> is ahead is passed over; any other is drawn; after one that retires, the
  iteration passes over the instance that followed it in \<open>xs\<close>.
\<close>

fun tick_drawn :: "real \<Rightarrow> letter_instance list \<Rightarrow> letter_instance list" where
  "tick_drawn now [] = []"
| "tick_drawn now [l] = (if now < fadeout l then [] else [l])"
| "tick_drawn now (l # r # rest) =
     (if now < fadeout l then tick_drawn now (r # rest)
      else if retires now l then l # tick_drawn now rest
      else l # tick_drawn now (r # rest))"

text \<open>
  What one run of \<open>redraw_loop\<close> from the index \<open>i\<close> leaves behind (\<open>tick_post\<close>, with the
  instances \<open>ds\<close> it drew), and how the instances it removed pair with those it pushed
  (\<open>tick_pairs\<close>).
\<close>

definition tick_post ::
  "env \<Rightarrow> real \<Rightarrow> nat \<Rightarrow> page_background \<Rightarrow> page_background \<Rightarrow> letter_instance list \<Rightarrow> bool" where
  "tick_post e now i st st' ds =
     (length (letterInstances st') = length (letterInstances st)
      \<and> letterPositions st' = letterPositions st
      \<and> width st' = width st \<and> height st' = height st
      \<and> canvas_width st' = canvas_width st \<and> canvas_height st' = canvas_height st
      \<and> clk st' = clk st
      \<and> (\<forall>inst\<in>set (letterInstances st').
            inst \<in> set (letterInstances st)
            \<or> (\<exists>p\<in>set (letterPositions st). \<exists>k. inst = replacement e now p k))
      \<and> overlayCtx st' = overlayCtx st @ concat (map (draw_ops now) ds)
      \<and> set ds \<subseteq> {l \<in> set (drop i (letterInstances st)). fadeout l \<le> now})"

definition tick_pairs :: "env \<Rightarrow> real \<Rightarrow> page_background \<Rightarrow> page_background \<Rightarrow> bool" where
  "tick_pairs e now st st' =
     (\<exists>retired news.
        mset (letterInstances st') + mset retired = mset (letterInstances st) + mset news
        \<and> length retired = length news
        \<and> (\<forall>l\<in>set retired. l \<in> set (letterInstances st) \<and> retires now l)
        \<and> (\<forall>inst\<in>set news. \<exists>p\<in>set (letterPositions st). \<exists>k. inst = replacement e now p k))"

subsection \<open>Example environments\<close>

text \<open>
  \<open>env_const r t\<close>: every random value is \<open>r\<close> and the clock always reads \<open>t\<close>.
  \<open>env_after n t\<close>: every random value is 0; the clock reads 0 in its first \<open>n\<close> calls
  and \<open>t\<close> from then on.
  \<open>env_bug\<close>: the random values are 0 but for the fourth, 0.3; the clock reads 0 during
  the build (its first four calls) and 3500 from then on.
\<close>

definition env_const :: "real \<Rightarrow> real \<Rightarrow> env" where
  "env_const r t = \<lparr>math_random = (\<lambda>i. r), date_now = (\<lambda>i. t)\<rparr>"

definition env_after :: "nat \<Rightarrow> real \<Rightarrow> env" where
  "env_after n t = \<lparr>math_random = (\<lambda>i. 0), date_now = (\<lambda>i. if i < n then 0 else t)\<rparr>"

definition env_bug :: env where
  "env_bug = \<lparr>math_random = (\<lambda>i. if i = 3 then 3 / 10 else 0),
              date_now = (\<lambda>i. if i < 4 then 0 else 3500)\<rparr>"

declare letters_loop.simps [simp del] lines_loop.simps [simp del] redraw_loop.simps [simp del]

section \<open>Properties\<close>

subsection \<open>The easing function: its three branches\<close>

lemma easeInOutSine_before:
  "now < start \<Longrightarrow> easeInOutSine now start end = Num 0"
  by (simp add: easeInOutSine_def)

lemma easeInOutSine_inside:
  assumes "start < end" "start \<le> now" "now \<le> end"
  shows "easeInOutSine now start end =
           Num (max 0 (1 / 2 - 1 / 2 * cos ((now - start) / (end - start) * pi)))"
  using assms by (simp add: easeInOutSine_def Let_def)

lemma easeInOutSine_after:
  assumes "start < end" "end < now"
  shows "easeInOutSine now start end = Num (sin ((now - end) / ((end - start) / 2) * pi))"
  using assms by (simp add: easeInOutSine_def Let_def)

lemma easeInOutSine_at_end:
  assumes "start < end"
  shows "easeInOutSine end start end = Num 1"
  using assms by (simp add: easeInOutSine_def Let_def)

lemma easeInOutSine_midpoint:
  assumes "start < end"
  shows "easeInOutSine (start + (end - start) / 2) start end = Num (1 / 2)"
proof -
  have "(start + (end - start) / 2 - start) / (end - start) = 1 / 2"
    using assms by (simp add: field_simps)
  then have "cos ((start + (end - start) / 2 - start) / (end - start) * pi) = 0"
    by (simp only: cos_pi_half times_divide_eq_left mult_1)
  moreover have "start \<le> start + (end - start) / 2" "start + (end - start) / 2 \<le> end"
    using assms by (simp_all add: field_simps)
  ultimately show ?thesis
    using assms easeInOutSine_inside [of start "end" "start + (end - start) / 2"] by simp
qed

lemma easeInOutSine_trough:
  assumes "start < end"
  shows "easeInOutSine (end + 3 * (end - start) / 4) start end = Num (- 1)"
proof -
  have "(end + 3 * (end - start) / 4 - end) / ((end - start) / 2) = 3 / 2"
    using assms by (simp add: field_simps)
  then have "sin ((end + 3 * (end - start) / 4 - end) / ((end - start) / 2) * pi) = - 1"
    by (simp only: sin_3over2_pi)
  moreover have "end < end + 3 * (end - start) / 4"
    using assms by simp
  ultimately show ?thesis
    using assms easeInOutSine_after [of start "end" "end + 3 * (end - start) / 4"] by simp
qed

lemma easeInOutSine_upper:
  "easeInOutSine now start end = Num v \<Longrightarrow> v \<le> 1"
proof -
  assume a: "easeInOutSine now start end = Num v"
  have c: "1 / 2 - 1 / 2 * cos z \<le> 1" for z :: real
    using cos_ge_minus_one [of z] by linarith
  show ?thesis
    using a c [of "(now - start) / (end - start) * pi"]
    by (auto simp: easeInOutSine_def Let_def split: if_splits)
qed

text \<open>
  Claim C1 (as amended). For an interval \<open>start < end\<close>, the easing function follows the
  three-branch policy: it is 0 for every \<open>now < start\<close>; for \<open>start \<le> now \<le> end\<close> it is
  \<open>max(0, 0.5 - 0.5 cos(progress pi))\<close> with \<open>progress = (now - start) / (end - start)\<close>, so it
  is 1 at \<open>end\<close> and 0.5 at the midpoint; for \<open>now > end\<close> it is the unclamped
  \<open>sin(((now - end) / ((end - start) / 2)) pi)\<close>, which can be negative (it is -1 three
  quarters of a duration after \<open>end\<close>) and lies in \<open>[-1, 1]\<close>: it never exceeds 1.
\<close>

theorem easeInOutSine_three_branch:
  assumes "start < end"
  shows "(now < start \<longrightarrow> easeInOutSine now start end = Num 0)
       \<and> (start \<le> now \<and> now \<le> end \<longrightarrow>
            easeInOutSine now start end =
              Num (max 0 (1 / 2 - 1 / 2 * cos ((now - start) / (end - start) * pi))))
       \<and> easeInOutSine end start end = Num 1
       \<and> easeInOutSine (start + (end - start) / 2) start end = Num (1 / 2)
       \<and> (end < now \<longrightarrow>
            easeInOutSine now start end = Num (sin ((now - end) / ((end - start) / 2) * pi))
            \<and> - 1 \<le> sin ((now - end) / ((end - start) / 2) * pi)
            \<and> sin ((now - end) / ((end - start) / 2) * pi) \<le> 1)
       \<and> easeInOutSine (end + 3 * (end - start) / 4) start end = Num (- 1)"
  using assms easeInOutSine_before [of now start "end"]
    easeInOutSine_inside [of start "end" now] easeInOutSine_after [of start "end" now]
    easeInOutSine_at_end [of start "end"] easeInOutSine_midpoint [of start "end"]
    easeInOutSine_trough [of start "end"]
  by simp

theorem easeInOutSine_three_branch_witness:
  "easeInOutSine (- 1) 0 2 = Num 0
   \<and> easeInOutSine 1 0 2 = Num (1 / 2)
   \<and> easeInOutSine 2 0 2 = Num 1
   \<and> easeInOutSine 3 0 2 = Num 0
   \<and> easeInOutSine (7 / 2) 0 2 = Num (- 1)"
proof -
  have h: "(0::real) < 2" by simp
  show ?thesis
    using easeInOutSine_three_branch [OF h, of "- 1"] easeInOutSine_three_branch [OF h, of 3]
    by simp
qed

text \<open>
  The claim as stated says the branch after \<open>end\<close> can exceed 1. It cannot: no input
  makes the easing function return a value above 1.
\<close>

theorem easeInOutSine_never_above_one:
  "\<not> (\<exists>now start end v. easeInOutSine now start end = Num v \<and> 1 < v)"
  using easeInOutSine_upper by fastforce

subsection \<open>The sampler: selection without replacement\<close>

lemma floor_random_range:
  assumes "0 \<le> r" "r < 1" "0 < len"
  shows "0 \<le> \<lfloor>r * real_of_int len\<rfloor> \<and> \<lfloor>r * real_of_int len\<rfloor> < len"
proof -
  have "0 \<le> r * real_of_int len"
    using assms by simp
  moreover have "r * real_of_int len < real_of_int len"
    using assms by simp
  ultimately show ?thesis
    by (simp add: floor_less_iff)
qed

lemma taken_at_upd:
  "taken_at (taken(a \<mapsto> b)) i = (if i = a then b else taken_at taken i)"
  by (simp add: taken_at_def)

lemma drop_update_here:
  "n < length xs \<Longrightarrow> drop n (xs[n := a]) = a # drop (Suc n) xs"
  by (simp add: Cons_nth_drop_Suc [symmetric] drop_update_swap)

lemma sample_loop_invariant:
  assumes rnd: "\<forall>i. 0 \<le> rnd i \<and> rnd i < 1"
    and "int n \<le> len" "len \<le> int (length arr)"
    and "inj_on (taken_at taken) {0..<len}"
    and "taken_at taken ` {0..<len} \<subseteq> {0..<int (length arr)}"
    and "length result = n + length chosen"
    and "drop n result = map (arr_at arr) chosen"
    and "distinct chosen"
    and "set chosen \<subseteq> {0..<int (length arr)}"
    and "set chosen \<inter> taken_at taken ` {0..<len} = {}"
  shows "\<exists>chosen'. sample_loop rnd arr n len result taken k = (map (arr_at arr) chosen', k + n)
           \<and> length chosen' = n + length chosen \<and> distinct chosen'
           \<and> set chosen' \<subseteq> {0..<int (length arr)}"
  using assms(2-)
proof (induction n arbitrary: len result taken k chosen)
  case 0
  then show ?case by auto
next
  case (Suc n)
  define xi where "xi = \<lfloor>rnd k * real_of_int len\<rfloor>"
  define c where "c = taken_at taken xi"
  define len' where "len' = len - 1"
  define taken' where "taken' = taken(xi \<mapsto> taken_at taken len')"
  define result' where "result' = result[n := arr_at arr c]"
  have lenpos: "0 < len" using Suc.prems(1) by simp
  have xi: "0 \<le> xi" "xi < len"
    using floor_random_range [of "rnd k" len] rnd lenpos by (simp_all add: xi_def)
  have xin: "xi \<in> {0..<len}" using xi by simp
  have lin: "len' \<in> {0..<len}" using lenpos by (simp add: len'_def)
  have cin: "c \<in> taken_at taken ` {0..<len}"
    unfolding c_def using xin by blast
  have crange: "c \<in> {0..<int (length arr)}"
    using cin Suc.prems(4) by blast
  have cnew: "c \<notin> set chosen"
    using cin Suc.prems(9) by blast
  have step: "sample_loop rnd arr (Suc n) len result taken k
                = sample_loop rnd arr n len' result' taken' (Suc k)"
    by (simp add: xi_def c_def len'_def taken'_def result'_def Let_def)
  have img: "taken_at taken' ` {0..<len'} \<subseteq> taken_at taken ` {0..<len} - {c}"
  proof
    fix v assume "v \<in> taken_at taken' ` {0..<len'}"
    then obtain i where i: "i \<in> {0..<len'}" "v = taken_at taken' i" by blast
    have iin: "i \<in> {0..<len}" using i(1) by (simp add: len'_def)
    show "v \<in> taken_at taken ` {0..<len} - {c}"
    proof (cases "i = xi")
      case True
      then have v: "v = taken_at taken len'" using i(2) by (simp add: taken'_def taken_at_upd)
      have "len' \<noteq> xi" using i(1) True by simp
      then have "taken_at taken len' \<noteq> taken_at taken xi"
        using Suc.prems(3) lin xin by (auto dest: inj_onD)
      then show ?thesis using v lin by (auto simp: c_def)
    next
      case False
      then have v: "v = taken_at taken i" using i(2) by (simp add: taken'_def taken_at_upd)
      have "taken_at taken i \<noteq> taken_at taken xi"
        using Suc.prems(3) iin xin False by (auto dest: inj_onD)
      then show ?thesis using v iin by (auto simp: c_def)
    qed
  qed
  have inj: "inj_on (taken_at taken') {0..<len'}"
  proof (rule inj_onI)
    fix i j assume ij: "i \<in> {0..<len'}" "j \<in> {0..<len'}" "taken_at taken' i = taken_at taken' j"
    have in': "i \<in> {0..<len}" "j \<in> {0..<len}" using ij(1,2) by (simp_all add: len'_def)
    have ne: "i \<noteq> len'" "j \<noteq> len'" using ij(1,2) by simp_all
    show "i = j"
    proof (cases "i = xi")
      case True
      show ?thesis
      proof (cases "j = xi")
        case True
        then show ?thesis using \<open>i = xi\<close> by simp
      next
        case False
        then have "taken_at taken len' = taken_at taken j"
          using ij(3) True by (simp add: taken'_def taken_at_upd)
        then have "len' = j" using Suc.prems(3) lin in'(2) by (auto dest: inj_onD)
        then show ?thesis using ne by simp
      qed
    next
      case False
      show ?thesis
      proof (cases "j = xi")
        case True
        then have "taken_at taken i = taken_at taken len'"
          using ij(3) False by (simp add: taken'_def taken_at_upd)
        then have "i = len'" using Suc.prems(3) lin in'(1) by (auto dest: inj_onD)
        then show ?thesis using ne by simp
      next
        case jf: False
        then have "taken_at taken i = taken_at taken j"
          using ij(3) False by (simp add: taken'_def taken_at_upd)
        then show ?thesis using Suc.prems(3) in' by (auto dest: inj_onD)
      qed
    qed
  qed
  have nlt: "n < length result" using Suc.prems(5) by simp
  have p1: "int n \<le> len'" using Suc.prems(1) by (simp add: len'_def)
  have p2: "len' \<le> int (length arr)" using Suc.prems(2) by (simp add: len'_def)
  have p4: "taken_at taken' ` {0..<len'} \<subseteq> {0..<int (length arr)}"
    using img Suc.prems(4) by blast
  have p5: "length result' = n + length (c # chosen)"
    using Suc.prems(5) by (simp add: result'_def)
  have p6: "drop n result' = map (arr_at arr) (c # chosen)"
    using Suc.prems(6) nlt by (simp add: result'_def drop_update_here)
  have p7: "distinct (c # chosen)" using Suc.prems(7) cnew by simp
  have p8: "set (c # chosen) \<subseteq> {0..<int (length arr)}"
    using Suc.prems(8) crange by simp
  have p9: "set (c # chosen) \<inter> taken_at taken' ` {0..<len'} = {}"
    using img Suc.prems(9) by auto
  from Suc.IH [OF p1 p2 inj p4 p5 p6 p7 p8 p9, of "Suc k"]
  show ?case using step by auto
qed

lemma getRandomAmountFromArray_indices:
  assumes rnd: "\<forall>i. 0 \<le> rnd i \<and> rnd i < 1" and n: "n \<le> length arr"
  shows "\<exists>chosen. getRandomAmountFromArray rnd arr n k = Inr (map (arr_at arr) chosen, k + n)
           \<and> length chosen = n \<and> distinct chosen
           \<and> set chosen \<subseteq> {0..<int (length arr)}"
proof -
  have "\<exists>chosen'. sample_loop rnd arr n (int (length arr)) (replicate n None) Map.empty k
            = (map (arr_at arr) chosen', k + n)
           \<and> length chosen' = n + length ([]::int list) \<and> distinct chosen'
           \<and> set chosen' \<subseteq> {0..<int (length arr)}"
    by (rule sample_loop_invariant [OF rnd])
       (use n in \<open>auto simp: taken_at_def inj_on_def\<close>)
  then show ?thesis
    using n by (auto simp: getRandomAmountFromArray_def Let_def)
qed

lemma getRandomAmountFromArray_nat_indices:
  assumes rnd: "\<forall>i. 0 \<le> rnd i \<and> rnd i < 1" and n: "n \<le> length arr"
  shows "\<exists>picked. getRandomAmountFromArray rnd arr n k
                     = Inr (map (\<lambda>i. Some (arr ! i)) picked, k + n)
           \<and> length picked = n \<and> distinct picked \<and> (\<forall>i\<in>set picked. i < length arr)"
proof -
  obtain chosen where c: "getRandomAmountFromArray rnd arr n k = Inr (map (arr_at arr) chosen, k + n)"
      "length chosen = n" "distinct chosen" "set chosen \<subseteq> {0..<int (length arr)}"
    using getRandomAmountFromArray_indices [OF rnd n, of k] by blast
  have m: "map (arr_at arr) chosen = map (\<lambda>i. Some (arr ! i)) (map nat chosen)"
    using c(4) by (auto simp: arr_at_def)
  have nonneg: "\<forall>c\<in>set chosen. 0 \<le> c"
    using c(4) by auto
  have "inj_on nat (set chosen)"
  proof (rule inj_onI)
    fix a b assume "a \<in> set chosen" "b \<in> set chosen" "nat a = nat b"
    then show "a = b" using nonneg by (simp add: eq_nat_nat_iff)
  qed
  then have d: "distinct (map nat chosen)"
    using c(3) by (simp add: distinct_map)
  have "\<forall>c\<in>set chosen. c < int (length arr)"
    using c(4) by auto
  then have r: "\<forall>i\<in>set (map nat chosen). i < length arr"
    using nonneg by (auto simp: nat_less_iff)
  show ?thesis
    using c(1,2) m d r by (intro exI [of _ "map nat chosen"]) simp
qed

lemma getRandomAmountFromArray_too_many:
  "length arr < n \<Longrightarrow>
     getRandomAmountFromArray rnd arr n k
       = Inl (AstroError ''getRandomAmountFromArray: more elements taken than available'')"
  by (simp add: getRandomAmountFromArray_def Let_def)

text \<open>Whatever the random source returns, a defined element of the result is an element of the array.\<close>

lemma sample_loop_from_arr:
  assumes "\<forall>v. Some v \<in> set result \<longrightarrow> v \<in> set arr"
  shows "\<forall>v. Some v \<in> set (fst (sample_loop rnd arr n len result taken k)) \<longrightarrow> v \<in> set arr"
  using assms
proof (induction n arbitrary: len result taken k)
  case 0
  then show ?case by simp
next
  case (Suc n)
  have "\<forall>v. Some v \<in> set (result[n := arr_at arr (taken_at taken \<lfloor>rnd k * real_of_int len\<rfloor>)])
            \<longrightarrow> v \<in> set arr"
  proof (intro allI impI)
    fix v assume "Some v \<in> set (result[n := arr_at arr (taken_at taken \<lfloor>rnd k * real_of_int len\<rfloor>)])"
    then have "Some v \<in> insert (arr_at arr (taken_at taken \<lfloor>rnd k * real_of_int len\<rfloor>)) (set result)"
      using set_update_subset_insert by fastforce
    then show "v \<in> set arr"
      using Suc.prems by (auto simp: arr_at_def split: if_splits)
  qed
  from Suc.IH [OF this] show ?case by (simp add: Let_def)
qed

lemma getRandomAmountFromArray_from_arr:
  "getRandomAmountFromArray rnd arr n k = Inr (res, k') \<Longrightarrow> Some v \<in> set res \<Longrightarrow> v \<in> set arr"
  using sample_loop_from_arr [of "replicate n None" arr rnd n "int (length arr)" Map.empty k]
  by (auto simp: getRandomAmountFromArray_def Let_def split: if_splits)

subsection \<open>The grid\<close>


lemma letters_loop_eq:
  "letters_loop i j letters s acc = acc @ map (cell s i) [j..<letters]"
proof (induction i j letters s acc rule: letters_loop.induct)
  case (1 i j letters s acc)
  show ?case
  proof (cases "j < letters")
    case True
    have "letters_loop i j letters s acc
            = letters_loop i (j + 1) letters s (acc @ [cell s i j])"
      using True by (subst letters_loop.simps) (simp add: cell_def)
    also have "\<dots> = (acc @ [cell s i j]) @ map (cell s i) [j + 1..<letters]"
      using "1.IH" [OF True] by (simp add: cell_def)
    finally show ?thesis
      using True by (simp add: upt_conv_Cons)
  next
    case False
    then show ?thesis by (subst letters_loop.simps) simp
  qed
qed

lemma lines_loop_eq:
  "lines_loop i lines letters s acc
     = acc @ concat (map (\<lambda>r. map (cell s r) [0..<letters]) [i..<lines])"
proof (induction i lines letters s acc rule: lines_loop.induct)
  case (1 i lines letters s acc)
  show ?case
  proof (cases "i < lines")
    case True
    have "lines_loop i lines letters s acc
            = lines_loop (i + 1) lines letters s (letters_loop i 0 letters s acc)"
      using True by (subst lines_loop.simps) simp
    also have "\<dots> = letters_loop i 0 letters s acc
                 @ concat (map (\<lambda>r. map (cell s r) [0..<letters]) [i + 1..<lines])"
      using "1.IH" [OF True] by simp
    finally show ?thesis
      using True by (simp add: upt_conv_Cons letters_loop_eq)
  next
    case False
    then show ?thesis by (subst lines_loop.simps) simp
  qed
qed

lemma length_rows: "length (concat (map (\<lambda>r. map (f r) [0..<c]) [0..<n])) = n * c"
  by (induction n) simp_all

lemma nth_rows:
  "i < n \<Longrightarrow> j < c \<Longrightarrow> concat (map (\<lambda>r. map (f r) [0..<c]) [0..<n]) ! (i * c + j) = f i j"
proof (induction n)
  case 0
  then show ?case by simp
next
  case (Suc n)
  show ?case
  proof (cases "i < n")
    case True
    then have "i * c + j < n * c"
      using Suc.prems(2)
      by (metis Suc_leI add.commute add_less_cancel_left less_le_trans mult_Suc mult_le_mono1)
    then show ?thesis
      using Suc True by (simp add: nth_append length_rows)
  next
    case False
    then have "i = n" using Suc.prems(1) by simp
    then show ?thesis
      using Suc.prems(2) by (simp add: nth_append length_rows)
  qed
qed

lemma getRandomAmountFromArray_length:
  "getRandomAmountFromArray rnd arr n k = Inr (res, k') \<Longrightarrow> length res = n \<and> n \<le> length arr"
proof -
  have "length (fst (sample_loop rnd arr m len result taken j)) = length result"
    for m len result taken j
    by (induction m arbitrary: len result taken j) (simp_all add: Let_def)
  from this [of n "int (length arr)" "replicate n None" Map.empty k]
  show "getRandomAmountFromArray rnd arr n k = Inr (res, k') \<Longrightarrow> length res = n \<and> n \<le> length arr"
    by (auto simp: getRandomAmountFromArray_def Let_def split: if_splits)
qed

subsection \<open>The seed\<close>

lemma seed_loop_frame:
  "letterPositions (state_of (seed_loop e rs st)) = letterPositions st
   \<and> width (state_of (seed_loop e rs st)) = width st
   \<and> height (state_of (seed_loop e rs st)) = height st
   \<and> canvas_width (state_of (seed_loop e rs st)) = canvas_width st
   \<and> canvas_height (state_of (seed_loop e rs st)) = canvas_height st"
  by (induction e rs st rule: seed_loop.induct) (simp_all add: Let_def)

lemma seed_loop_Some:
  "seed_loop e (Some p # rest) st =
     seed_loop e rest
       (st\<lparr>overlayCtx := overlayCtx st @
             [FillStyle (Num 0), ShadowColor (Num 0), FillText (letter p) (x p) (y p)],
           rng := rng st + 1, clk := clk st + 2,
           letterInstances := letterInstances st @
             [\<lparr>x = x p, y = y p, letter = letter p, timestamp = date_now e (clk st),
               fadeout = date_now e (clk st + 1) + animLength (math_random e (rng st)) * 1000\<rparr>]\<rparr>)"
  by (simp add: Let_def)

lemma seed_loop_instances:
  "\<forall>inst\<in>set (letterInstances (state_of (seed_loop e rs st))).
      inst \<in> set (letterInstances st)
      \<or> (\<exists>p k. Some p \<in> set rs \<and> clk st \<le> k
             \<and> x inst = x p \<and> y inst = y p \<and> letter inst = letter p
             \<and> timestamp inst = date_now e k)"
proof (induction rs arbitrary: st)
  case Nil
  then show ?case by simp
next
  case (Cons r rest)
  show ?case
  proof (cases r)
    case None
    then show ?thesis by simp
  next
    case (Some p)
    define st' where "st' = st\<lparr>overlayCtx := overlayCtx st @
             [FillStyle (Num 0), ShadowColor (Num 0), FillText (letter p) (x p) (y p)],
           rng := rng st + 1, clk := clk st + 2,
           letterInstances := letterInstances st @
             [\<lparr>x = x p, y = y p, letter = letter p, timestamp = date_now e (clk st),
               fadeout = date_now e (clk st + 1) + animLength (math_random e (rng st)) * 1000\<rparr>]\<rparr>"
    have step: "seed_loop e (r # rest) st = seed_loop e rest st'"
      unfolding Some st'_def by (rule seed_loop_Some)
    show ?thesis
    proof
      fix inst
      assume "inst \<in> set (letterInstances (state_of (seed_loop e (r # rest) st)))"
      then have "inst \<in> set (letterInstances (state_of (seed_loop e rest st')))"
        by (simp only: step)
      then consider (old) "inst \<in> set (letterInstances st')"
        | (new) q k where "Some q \<in> set rest" "clk st' \<le> k" "x inst = x q" "y inst = y q"
            "letter inst = letter q" "timestamp inst = date_now e k"
        using Cons.IH [of st'] by blast
      then show "inst \<in> set (letterInstances st)
          \<or> (\<exists>p k. Some p \<in> set (r # rest) \<and> clk st \<le> k
             \<and> x inst = x p \<and> y inst = y p \<and> letter inst = letter p
             \<and> timestamp inst = date_now e k)"
      proof cases
        case old
        then consider "inst \<in> set (letterInstances st)"
          | "inst = \<lparr>x = x p, y = y p, letter = letter p, timestamp = date_now e (clk st),
               fadeout = date_now e (clk st + 1) + animLength (math_random e (rng st)) * 1000\<rparr>"
          by (auto simp: st'_def)
        then show ?thesis
        proof cases
          case 1
          then show ?thesis by simp
        next
          case 2
          then have "Some p \<in> set (r # rest) \<and> clk st \<le> clk st
             \<and> x inst = x p \<and> y inst = y p \<and> letter inst = letter p
             \<and> timestamp inst = date_now e (clk st)"
            using Some by simp
          then show ?thesis by blast
        qed
      next
        case new
        then have "Some q \<in> set (r # rest) \<and> clk st \<le> k
             \<and> x inst = x q \<and> y inst = y q \<and> letter inst = letter q
             \<and> timestamp inst = date_now e k"
          by (simp add: st'_def)
        then show ?thesis by blast
      qed
    qed
  qed
qed

lemma seed_loop_defined:
  "\<exists>st'. seed_loop e (map Some ps) st = Inr st'
         \<and> length (letterInstances st') = length (letterInstances st) + length ps"
proof (induction ps arbitrary: st)
  case Nil
  then show ?case by simp
next
  case (Cons p ps)
  show ?case
    using Cons [of "st\<lparr>overlayCtx := overlayCtx st @
                   [FillStyle (Num 0), ShadowColor (Num 0), FillText (letter p) (x p) (y p)],
                rng := rng st + 1, clk := clk st + 2,
                letterInstances := letterInstances st @
                  [\<lparr>x = x p, y = y p, letter = letter p, timestamp = date_now e (clk st),
                    fadeout = date_now e (clk st + 1) + animLength (math_random e (rng st)) * 1000\<rparr>]\<rparr>"]
    by (simp only: list.map seed_loop_Some) simp
qed

lemma initBackground_unfold:
  "initBackground e title st =
     (case getRandomAmountFromArray (math_random e)
             (letterPositions st @ grid_of (width st) (height st) title)
             (target (height st)) (rng st) of
        Inl err \<Rightarrow> Inl (err, st\<lparr>letterPositions :=
                             letterPositions st @ grid_of (width st) (height st) title\<rparr>)
      | Inr (randomLetters, k) \<Rightarrow>
          seed_loop e randomLetters
            (st\<lparr>letterPositions := letterPositions st @ grid_of (width st) (height st) title,
                rng := k, overlayCtx := overlayCtx st @ [Configure]\<rparr>))"
  by (simp add: initBackground_def Let_def lines_loop_eq grid_of_def target_def
      configureContext_def split: sum.splits prod.splits)

lemma initBackground_frame:
  "letterPositions (state_of (initBackground e title st))
     = letterPositions st @ grid_of (width st) (height st) title
   \<and> width (state_of (initBackground e title st)) = width st
   \<and> height (state_of (initBackground e title st)) = height st
   \<and> canvas_width (state_of (initBackground e title st)) = canvas_width st
   \<and> canvas_height (state_of (initBackground e title st)) = canvas_height st"
  by (simp add: initBackground_unfold seed_loop_frame split: sum.splits prod.splits)

lemma initBackground_instances:
  assumes "inst \<in> set (letterInstances (state_of (initBackground e title st)))"
  shows "inst \<in> set (letterInstances st)
         \<or> (\<exists>p\<in>set (letterPositions (state_of (initBackground e title st))). \<exists>k\<ge>clk st.
               x inst = x p \<and> y inst = y p \<and> letter inst = letter p
               \<and> timestamp inst = date_now e k)"
proof (cases "getRandomAmountFromArray (math_random e)
             (letterPositions st @ grid_of (width st) (height st) title)
             (target (height st)) (rng st)")
  case (Inl err)
  then show ?thesis using assms by (simp add: initBackground_unfold)
next
  case (Inr r)
  obtain rs k where r: "r = (rs, k)" by (cases r)
  define st1 where "st1 = st\<lparr>letterPositions := letterPositions st @ grid_of (width st) (height st) title,
                rng := k, overlayCtx := overlayCtx st @ [Configure]\<rparr>"
  have eq: "initBackground e title st = seed_loop e rs st1"
    using Inr r by (simp add: initBackground_unfold st1_def)
  have "inst \<in> set (letterInstances (state_of (seed_loop e rs st1)))"
    using assms eq by simp
  then consider (old) "inst \<in> set (letterInstances st1)"
    | (new) p j where "Some p \<in> set rs" "clk st1 \<le> j" "x inst = x p" "y inst = y p"
        "letter inst = letter p" "timestamp inst = date_now e j"
    using seed_loop_instances [of e rs st1] by blast
  then show ?thesis
  proof cases
    case old
    then show ?thesis by (simp add: st1_def)
  next
    case new
    have "p \<in> set (letterPositions st @ grid_of (width st) (height st) title)"
      using getRandomAmountFromArray_from_arr [OF Inr [unfolded r] new(1)] .
    then have "p \<in> set (letterPositions (state_of (initBackground e title st)))"
      using initBackground_frame [of e title st] by simp
    moreover have "clk st \<le> j" using new(2) by (simp add: st1_def)
    ultimately show ?thesis using new(3-6) by blast
  qed
qed

lemma length_grid_of:
  "length (grid_of w h title) = nat \<lceil>real h / 35\<rceil> * nat \<lceil>real w / 17\<rceil>"
  by (simp add: grid_of_def length_rows)

lemma target_le_rows: "target h \<le> nat \<lceil>real h / 35\<rceil>"
proof -
  define r where "r = nat \<lceil>real h / 35\<rceil>"
  have "real r * 0.75 + 1 / 2 < real_of_int (int r) + 1"
    by simp
  then have "\<lfloor>real r * 0.75 + 1 / 2\<rfloor> \<le> int r"
    by (simp only: floor_le_iff)
  then show ?thesis
    by (simp add: target_def parseInt_toFixed_def r_def)
qed

lemma target_le_grid:
  assumes "0 < w"
  shows "target h \<le> length (grid_of w h title)"
proof -
  define c where "c = \<lceil>real w / 17\<rceil>"
  define r where "r = nat \<lceil>real h / 35\<rceil>"
  have "0 < real w / 17" using assms by simp
  then have "0 < c" unfolding c_def by (simp only: less_ceiling_iff of_int_0)
  then have "1 \<le> nat c" by simp
  then have "r \<le> r * nat c" by simp
  moreover have "target h \<le> r"
    unfolding r_def by (rule target_le_rows)
  moreover have "length (grid_of w h title) = r * nat c"
    unfolding r_def c_def by (rule length_grid_of)
  ultimately show ?thesis by linarith
qed

lemma initBackground_seeds:
  assumes rnd: "\<forall>i. 0 \<le> math_random e i \<and> math_random e i < 1"
    and fits: "target (height st) \<le> length (letterPositions st @ grid_of (width st) (height st) title)"
  shows "\<exists>st'. initBackground e title st = Inr st'
           \<and> length (letterInstances st') = length (letterInstances st) + target (height st)"
proof -
  obtain picked where p:
    "getRandomAmountFromArray (math_random e)
       (letterPositions st @ grid_of (width st) (height st) title) (target (height st)) (rng st)
     = Inr (map (\<lambda>i. Some ((letterPositions st @ grid_of (width st) (height st) title) ! i)) picked,
            rng st + target (height st))"
    "length picked = target (height st)"
    using getRandomAmountFromArray_nat_indices [OF rnd fits, of "rng st"] by blast
  have m: "map (\<lambda>i. Some ((letterPositions st @ grid_of (width st) (height st) title) ! i)) picked
           = map Some (map (\<lambda>i. (letterPositions st @ grid_of (width st) (height st) title) ! i) picked)"
    by simp
  show ?thesis
    using seed_loop_defined [of e
        "map (\<lambda>i. (letterPositions st @ grid_of (width st) (height st) title) ! i) picked"
        "st\<lparr>letterPositions := letterPositions st @ grid_of (width st) (height st) title,
            rng := rng st + target (height st), overlayCtx := overlayCtx st @ [Configure]\<rparr>"]
      p(2)
    by (simp add: initBackground_unfold p(1) m del: map_map)
qed

lemma initBackground_fails:
  assumes "length (letterPositions st @ grid_of (width st) (height st) title) < target (height st)"
  shows "initBackground e title st
           = Inl (AstroError ''getRandomAmountFromArray: more elements taken than available'',
                  st\<lparr>letterPositions := letterPositions st @ grid_of (width st) (height st) title\<rparr>)"
  using assms by (simp add: initBackground_unfold getRandomAmountFromArray_too_many)

subsection \<open>One frame\<close>

lemma redraw_loop_done:
  "length (letterInstances st) \<le> i \<Longrightarrow> redraw_loop e now i st = Inr st"
  by (subst redraw_loop.simps) simp

lemma redraw_loop_skip:
  "i < length (letterInstances st) \<Longrightarrow> now < fadeout (letterInstances st ! i) \<Longrightarrow>
     redraw_loop e now i st = redraw_loop e now (i + 1) st"
  by (subst redraw_loop.simps) (simp add: Let_def)

lemma redraw_loop_keep:
  "i < length (letterInstances st) \<Longrightarrow> fadeout (letterInstances st ! i) \<le> now \<Longrightarrow>
   \<not> retires now (letterInstances st ! i) \<Longrightarrow>
     redraw_loop e now i st
       = redraw_loop e now (i + 1)
           (st\<lparr>overlayCtx := overlayCtx st @ draw_ops now (letterInstances st ! i)\<rparr>)"
  by (subst redraw_loop.simps)
     (auto simp: Let_def retires_def fillLetter_def draw_ops_def)

lemma redraw_loop_retire:
  "i < length (letterInstances st) \<Longrightarrow> retires now (letterInstances st ! i) \<Longrightarrow>
   getRandomAmountFromArray (math_random e) (letterPositions st) 1 (rng st) = Inr ([Some p], k) \<Longrightarrow>
     redraw_loop e now i st
       = redraw_loop e now (i + 1)
           (st\<lparr>rng := k + 1,
               letterInstances := splice1 i (letterInstances st) @ [replacement e now p k],
               overlayCtx := overlayCtx st @ draw_ops now (letterInstances st ! i)\<rparr>)"
  by (subst redraw_loop.simps)
     (auto simp: Let_def retires_def fillLetter_def draw_ops_def replacement_def arr_at_def)

lemma redraw_loop_retire_fails:
  "i < length (letterInstances st) \<Longrightarrow> retires now (letterInstances st ! i) \<Longrightarrow>
   getRandomAmountFromArray (math_random e) (letterPositions st) 1 (rng st) = Inl err \<Longrightarrow>
     redraw_loop e now i st
       = Inl (err, st\<lparr>letterInstances := splice1 i (letterInstances st)\<rparr>)"
  by (subst redraw_loop.simps) (auto simp: Let_def retires_def)

lemma length_splice1_snoc:
  "i < length xs \<Longrightarrow> length (splice1 i xs @ [a]) = length xs"
  by (simp add: splice1_def)

lemma set_splice1: "set (splice1 i xs) \<subseteq> set xs"
  using set_take_subset [of i xs] set_drop_subset [of "Suc i" xs]
  by (auto simp: splice1_def)

lemma set_drop_splice1_snoc:
  assumes "i < length xs"
  shows "set (drop (Suc i) (splice1 i xs @ [a])) \<subseteq> set (drop i xs) \<union> {a}"
proof -
  have "drop (Suc i) (splice1 i xs @ [a]) = drop 1 (drop (Suc i) xs @ [a])"
    using assms by (simp add: splice1_def)
  then have "set (drop (Suc i) (splice1 i xs @ [a])) \<subseteq> set (drop (Suc i) xs @ [a])"
    using set_drop_subset [of 1 "drop (Suc i) xs @ [a]"] by simp
  moreover have "set (drop (Suc i) xs) \<subseteq> set (drop i xs)"
    by (rule set_drop_subset_set_drop) simp
  ultimately show ?thesis by auto
qed

lemma animLength_ge: "0 \<le> r \<Longrightarrow> 2 \<le> animLength r"
  by (simp add: animLength_def LETTER_FADE_DURATION_def)

lemma replacement_fresh:
  "0 \<le> math_random e k \<Longrightarrow> now < fadeout (replacement e now p k)"
  using animLength_ge [of "math_random e k"] by (simp add: replacement_def)

lemma sample_one:
  assumes rnd: "\<forall>i. 0 \<le> math_random e i \<and> math_random e i < 1" and "arr \<noteq> []"
  shows "\<exists>p\<in>set arr. getRandomAmountFromArray (math_random e) arr 1 k = Inr ([Some p], k + 1)"
proof -
  have "1 \<le> length arr" using assms(2) by (cases arr) simp_all
  from getRandomAmountFromArray_nat_indices [OF rnd this, of k]
  obtain picked where p: "getRandomAmountFromArray (math_random e) arr 1 k
        = Inr (map (\<lambda>i. Some (arr ! i)) picked, k + 1)"
      "length picked = 1" "\<forall>i\<in>set picked. i < length arr"
    by blast
  obtain j where j: "picked = [j]"
    using p(2) by (cases picked) simp_all
  then have "j < length arr" using p(3) by simp
  then have "arr ! j \<in> set arr" by simp
  then show ?thesis using p(1) j by auto
qed

lemma redraw_loop_step:
  assumes rnd: "\<forall>i. 0 \<le> math_random e i \<and> math_random e i < 1"
    and i: "i < length (letterInstances st)" and grid: "letterPositions st \<noteq> []"
  obtains (skip) "now < fadeout (letterInstances st ! i)"
      "redraw_loop e now i st = redraw_loop e now (i + 1) st"
  | (keep) "fadeout (letterInstances st ! i) \<le> now" "\<not> retires now (letterInstances st ! i)"
      "redraw_loop e now i st
         = redraw_loop e now (i + 1)
             (st\<lparr>overlayCtx := overlayCtx st @ draw_ops now (letterInstances st ! i)\<rparr>)"
  | (retire) p where "p \<in> set (letterPositions st)" "retires now (letterInstances st ! i)"
      "redraw_loop e now i st
         = redraw_loop e now (i + 1)
             (st\<lparr>rng := rng st + 1 + 1,
                 letterInstances := splice1 i (letterInstances st)
                                    @ [replacement e now p (rng st + 1)],
                 overlayCtx := overlayCtx st @ draw_ops now (letterInstances st ! i)\<rparr>)"
proof (cases "now < fadeout (letterInstances st ! i)")
  case True
  then show ?thesis using skip redraw_loop_skip [OF i] by blast
next
  case False
  then have le: "fadeout (letterInstances st ! i) \<le> now" by simp
  show ?thesis
  proof (cases "retires now (letterInstances st ! i)")
    case True
    obtain p where p: "p \<in> set (letterPositions st)"
        "getRandomAmountFromArray (math_random e) (letterPositions st) 1 (rng st)
           = Inr ([Some p], rng st + 1)"
      using sample_one [OF rnd grid, of "rng st"] by blast
    show ?thesis
      using retire [OF p(1) True] redraw_loop_retire [OF i True p(2)] by blast
  next
    case False
    then show ?thesis using keep [OF le False] redraw_loop_keep [OF i le False] by blast
  qed
qed

lemma redraw_loop_ok:
  assumes rnd: "\<forall>i. 0 \<le> math_random e i \<and> math_random e i < 1"
  shows "letterPositions st \<noteq> [] \<or> letterInstances st = [] \<Longrightarrow>
         \<exists>st' ds. redraw_loop e now i st = Inr st' \<and> tick_post e now i st st' ds"
proof (induction "length (letterInstances st) - i" arbitrary: i st rule: less_induct)
  case less
  show ?case
  proof (cases "i < length (letterInstances st)")
    case False
    then have "redraw_loop e now i st = Inr st" by (simp add: redraw_loop_done)
    moreover have "tick_post e now i st st []" by (simp add: tick_post_def)
    ultimately show ?thesis by blast
  next
    case True
    then have grid: "letterPositions st \<noteq> []" using less.prems by auto
    have here: "letterInstances st ! i \<in> set (drop i (letterInstances st))"
      using True by (metis Cons_nth_drop_Suc list.set_intros(1))
    have sub: "set (drop (Suc i) (letterInstances st)) \<subseteq> set (drop i (letterInstances st))"
      by (rule set_drop_subset_set_drop) simp
    show ?thesis
    proof (cases rule: redraw_loop_step [OF rnd True grid, of now])
      case 1
      obtain st' ds where r: "redraw_loop e now (i + 1) st = Inr st'"
          "tick_post e now (i + 1) st st' ds"
        using less.hyps [of st "i + 1"] less.prems True by fastforce
      have "tick_post e now i st st' ds"
        using r(2) sub unfolding tick_post_def by auto
      then show ?thesis using 1(2) r(1) by auto
    next
      case 2
      define st2 where "st2 = st\<lparr>overlayCtx := overlayCtx st @ draw_ops now (letterInstances st ! i)\<rparr>"
      obtain st' ds where r: "redraw_loop e now (i + 1) st2 = Inr st'"
          "tick_post e now (i + 1) st2 st' ds"
        using less.hyps [of st2 "i + 1"] less.prems True by (fastforce simp: st2_def)
      have "tick_post e now i st st' (letterInstances st ! i # ds)"
        using r(2) sub here 2(1) unfolding tick_post_def st2_def by auto
      then show ?thesis using 2(3) r(1) unfolding st2_def by auto
    next
      case (3 p)
      define new where "new = replacement e now p (rng st + 1)"
      define st2 where "st2 = st\<lparr>rng := rng st + 1 + 1,
                 letterInstances := splice1 i (letterInstances st) @ [new],
                 overlayCtx := overlayCtx st @ draw_ops now (letterInstances st ! i)\<rparr>"
      have len2: "length (letterInstances st2) = length (letterInstances st)"
        using length_splice1_snoc [OF True, of new] by (simp add: st2_def)
      obtain st' ds where r: "redraw_loop e now (i + 1) st2 = Inr st'"
          "tick_post e now (i + 1) st2 st' ds"
        using less.hyps [of st2 "i + 1"] less.prems True len2 grid
        by (fastforce simp: st2_def)
      have fresh: "now < fadeout new"
        unfolding new_def using rnd by (intro replacement_fresh) simp
      have le: "fadeout (letterInstances st ! i) \<le> now"
        using 3(2) by (simp add: retires_def)
      have d2: "set (drop (Suc i) (letterInstances st2)) \<subseteq> set (drop i (letterInstances st)) \<union> {new}"
        using set_drop_splice1_snoc [OF True, of new] by (simp add: st2_def)
      have s2: "set (letterInstances st2) \<subseteq> set (letterInstances st) \<union> {new}"
        using set_splice1 [of i "letterInstances st"] by (auto simp: st2_def)
      have ds: "set ds \<subseteq> {l \<in> set (drop i (letterInstances st)). fadeout l \<le> now}"
      proof
        fix l assume "l \<in> set ds"
        moreover have "set ds \<subseteq> {l \<in> set (drop (i + 1) (letterInstances st2)). fadeout l \<le> now}"
          using r(2) unfolding tick_post_def by blast
        ultimately have a: "l \<in> set (drop (Suc i) (letterInstances st2))" "fadeout l \<le> now"
          by auto
        then have "l \<noteq> new" using fresh by auto
        then have "l \<in> set (drop i (letterInstances st))" using d2 a(1) by auto
        then show "l \<in> {l \<in> set (drop i (letterInstances st)). fadeout l \<le> now}"
          using a(2) by simp
      qed
      have mem: "\<forall>inst\<in>set (letterInstances st').
            inst \<in> set (letterInstances st)
            \<or> (\<exists>p\<in>set (letterPositions st). \<exists>k. inst = replacement e now p k)"
      proof
        fix inst assume "inst \<in> set (letterInstances st')"
        then have "inst \<in> set (letterInstances st2)
            \<or> (\<exists>p\<in>set (letterPositions st2). \<exists>k. inst = replacement e now p k)"
          using r(2) unfolding tick_post_def by blast
        moreover have "letterPositions st2 = letterPositions st" by (simp add: st2_def)
        ultimately show "inst \<in> set (letterInstances st)
            \<or> (\<exists>p\<in>set (letterPositions st). \<exists>k. inst = replacement e now p k)"
          using s2 3(1) unfolding new_def by auto
      qed
      have "tick_post e now i st st' (letterInstances st ! i # ds)"
        unfolding tick_post_def
        using r(2) len2 mem ds here le unfolding tick_post_def st2_def by simp
      then show ?thesis using 3(3) r(1) unfolding st2_def new_def by auto
    qed
  qed
qed

lemma mset_splice1:
  assumes "i < length xs"
  shows "mset (splice1 i xs) + {#xs ! i#} = mset xs"
proof -
  have "xs = take i xs @ xs ! i # drop (Suc i) xs"
    using assms by (rule id_take_nth_drop)
  then have "mset xs = mset (take i xs @ xs ! i # drop (Suc i) xs)"
    by simp
  then show ?thesis
    by (simp add: splice1_def)
qed

lemma redraw_loop_pairs:
  assumes rnd: "\<forall>i. 0 \<le> math_random e i \<and> math_random e i < 1"
  shows "letterPositions st \<noteq> [] \<or> letterInstances st = [] \<Longrightarrow>
         redraw_loop e now i st = Inr st' \<Longrightarrow> tick_pairs e now st st'"
proof (induction "length (letterInstances st) - i" arbitrary: i st rule: less_induct)
  case less
  show ?case
  proof (cases "i < length (letterInstances st)")
    case False
    then have "st' = st" using less.prems(2) by (simp add: redraw_loop_done)
    then have "mset (letterInstances st') + mset [] = mset (letterInstances st) + mset []
        \<and> length ([]::letter_instance list) = length ([]::letter_instance list)"
      by simp
    then show ?thesis unfolding tick_pairs_def by fastforce
  next
    case True
    then have grid: "letterPositions st \<noteq> []" using less.prems(1) by auto
    show ?thesis
    proof (cases rule: redraw_loop_step [OF rnd True grid, of now])
      case 1
      then show ?thesis
        using less.hyps [of st "i + 1"] less.prems True by fastforce
    next
      case 2
      define st2 where "st2 = st\<lparr>overlayCtx := overlayCtx st @ draw_ops now (letterInstances st ! i)\<rparr>"
      have "tick_pairs e now st2 st'"
        using less.hyps [of st2 "i + 1"] less.prems True 2(3) by (fastforce simp: st2_def)
      then show ?thesis by (simp add: tick_pairs_def st2_def)
    next
      case (3 p)
      define new where "new = replacement e now p (rng st + 1)"
      define st2 where "st2 = st\<lparr>rng := rng st + 1 + 1,
                 letterInstances := splice1 i (letterInstances st) @ [new],
                 overlayCtx := overlayCtx st @ draw_ops now (letterInstances st ! i)\<rparr>"
      have len2: "length (letterInstances st2) = length (letterInstances st)"
        using length_splice1_snoc [OF True, of new] by (simp add: st2_def)
      have "tick_pairs e now st2 st'"
        using less.hyps [of st2 "i + 1"] less.prems True len2 grid 3(3)
        by (fastforce simp: st2_def new_def)
      then obtain retired news where rn:
          "mset (letterInstances st') + mset retired = mset (letterInstances st2) + mset news"
          "length retired = length news"
          "\<forall>l\<in>set retired. l \<in> set (letterInstances st2) \<and> retires now l"
          "\<forall>inst\<in>set news. \<exists>p\<in>set (letterPositions st2). \<exists>k. inst = replacement e now p k"
        unfolding tick_pairs_def by blast
      have fresh: "now < fadeout new"
        unfolding new_def using rnd by (intro replacement_fresh) simp
      have notnew: "\<not> retires now new"
        using fresh by (simp add: retires_def)
      have s2: "set (letterInstances st2) \<subseteq> set (letterInstances st) \<union> {new}"
        using set_splice1 [of i "letterInstances st"] by (auto simp: st2_def)
      have m2: "mset (letterInstances st2) + {#letterInstances st ! i#}
                  = mset (letterInstances st) + {#new#}"
        using mset_splice1 [OF True] by (simp add: st2_def)
      have a: "mset (letterInstances st') + mset (letterInstances st ! i # retired)
                 = mset (letterInstances st) + mset (new # news)"
        using rn(1) m2 by (simp add: ac_simps)
      have b: "length (letterInstances st ! i # retired) = length (new # news)"
        using rn(2) by simp
      have c: "\<forall>l\<in>set (letterInstances st ! i # retired).
                 l \<in> set (letterInstances st) \<and> retires now l"
      proof
        fix l assume l: "l \<in> set (letterInstances st ! i # retired)"
        show "l \<in> set (letterInstances st) \<and> retires now l"
        proof (cases "l = letterInstances st ! i")
          case True
          then show ?thesis using 3(2) \<open>i < length (letterInstances st)\<close> by simp
        next
          case False
          then have lr: "l \<in> set (letterInstances st2)" "retires now l"
            using l rn(3) by auto
          then have "l \<noteq> new" using notnew by auto
          then show ?thesis using lr s2 by auto
        qed
      qed
      have d: "\<forall>inst\<in>set (new # news).
                 \<exists>p\<in>set (letterPositions st). \<exists>k. inst = replacement e now p k"
        using rn(4) 3(1) by (auto simp: st2_def new_def)
      show ?thesis
        unfolding tick_pairs_def using a b c d by blast
    qed
  qed
qed

lemma redraw_loop_no_retire:
  "\<forall>l\<in>set (drop i (letterInstances st)). \<not> retires now l \<Longrightarrow>
     redraw_loop e now i st
       = Inr (st\<lparr>overlayCtx := overlayCtx st
                 @ concat (map (draw_ops now)
                     (filter (\<lambda>l. fadeout l \<le> now) (drop i (letterInstances st))))\<rparr>)"
proof (induction "length (letterInstances st) - i" arbitrary: i st rule: less_induct)
  case less
  show ?case
  proof (cases "i < length (letterInstances st)")
    case False
    then show ?thesis by (simp add: redraw_loop_done)
  next
    case True
    have d: "drop i (letterInstances st) = letterInstances st ! i # drop (Suc i) (letterInstances st)"
      using True by (simp add: Cons_nth_drop_Suc)
    have nr: "\<not> retires now (letterInstances st ! i)"
      "\<forall>l\<in>set (drop (i + 1) (letterInstances st)). \<not> retires now l"
      using less.prems d by simp_all
    show ?thesis
    proof (cases "now < fadeout (letterInstances st ! i)")
      case skip: True
      then show ?thesis
        using less.hyps [of st "i + 1"] nr(2) True redraw_loop_skip [OF True skip, of e] d
        by simp
    next
      case False
      then have le: "fadeout (letterInstances st ! i) \<le> now" by simp
      define st2 where "st2 = st\<lparr>overlayCtx := overlayCtx st @ draw_ops now (letterInstances st ! i)\<rparr>"
      have "redraw_loop e now (i + 1) st2
              = Inr (st2\<lparr>overlayCtx := overlayCtx st2
                 @ concat (map (draw_ops now)
                     (filter (\<lambda>l. fadeout l \<le> now) (drop (i + 1) (letterInstances st2))))\<rparr>)"
        using less.hyps [of st2 "i + 1"] nr(2) True by (simp add: st2_def)
      then show ?thesis
        using redraw_loop_keep [OF True le nr(1), of e] d le by (simp add: st2_def)
    qed
  qed
qed

lemma redrawBackground_unfold:
  "redrawBackground e st
     = redraw_loop e (date_now e (clk st)) 0
         (st\<lparr>overlayCtx := overlayCtx st @ [ClearRect (canvas_width st) (canvas_height st)],
             clk := clk st + 1\<rparr>)"
  by (simp add: redrawBackground_def Let_def)

lemma redrawBackground_ok:
  assumes rnd: "\<forall>i. 0 \<le> math_random e i \<and> math_random e i < 1"
    and inv: "letterPositions st \<noteq> [] \<or> letterInstances st = []"
  shows "\<exists>st' ds. redrawBackground e st = Inr st'
           \<and> length (letterInstances st') = length (letterInstances st)
           \<and> letterPositions st' = letterPositions st
           \<and> width st' = width st \<and> height st' = height st
           \<and> overlayCtx st' = overlayCtx st
                @ ClearRect (canvas_width st) (canvas_height st)
                  # concat (map (draw_ops (date_now e (clk st))) ds)
           \<and> set ds \<subseteq> {l \<in> set (letterInstances st). fadeout l \<le> date_now e (clk st)}
           \<and> tick_pairs e (date_now e (clk st)) st st'"
proof -
  define st1 where "st1 = st\<lparr>overlayCtx := overlayCtx st @ [ClearRect (canvas_width st) (canvas_height st)],
             clk := clk st + 1\<rparr>"
  have inv1: "letterPositions st1 \<noteq> [] \<or> letterInstances st1 = []"
    using inv by (simp add: st1_def)
  obtain st' ds where r: "redraw_loop e (date_now e (clk st)) 0 st1 = Inr st'"
      "tick_post e (date_now e (clk st)) 0 st1 st' ds"
    using redraw_loop_ok [OF rnd inv1] by blast
  have p: "tick_pairs e (date_now e (clk st)) st1 st'"
    using redraw_loop_pairs [OF rnd inv1 r(1)] .
  have "tick_pairs e (date_now e (clk st)) st st'"
    using p by (simp add: tick_pairs_def st1_def)
  moreover have "redrawBackground e st = Inr st'"
    using r(1) by (simp add: redrawBackground_unfold st1_def)
  ultimately show ?thesis
    using r(2) unfolding tick_post_def st1_def by auto
qed

lemma tick_pairs_member:
  assumes "tick_pairs e now st st'" "inst \<in> set (letterInstances st')"
  shows "inst \<in> set (letterInstances st)
         \<or> (\<exists>p\<in>set (letterPositions st). \<exists>k. inst = replacement e now p k)"
proof -
  obtain retired news where rn:
      "mset (letterInstances st') + mset retired = mset (letterInstances st) + mset news"
      "\<forall>inst\<in>set news. \<exists>p\<in>set (letterPositions st). \<exists>k. inst = replacement e now p k"
    using assms(1) unfolding tick_pairs_def by blast
  have "inst \<in># mset (letterInstances st') + mset retired"
    using assms(2) by simp
  then have "inst \<in># mset (letterInstances st) + mset news"
    by (simp only: rn(1))
  then have "inst \<in> set (letterInstances st) \<or> inst \<in> set news"
    by simp
  then show ?thesis using rn(2) by blast
qed

lemma ticks_ok:
  assumes rnd: "\<forall>i. 0 \<le> math_random e i \<and> math_random e i < 1"
  shows "letterPositions st \<noteq> [] \<or> letterInstances st = [] \<Longrightarrow>
         \<exists>st'. ticks e n st = Inr st'
           \<and> length (letterInstances st') = length (letterInstances st)
           \<and> letterPositions st' = letterPositions st
           \<and> width st' = width st \<and> height st' = height st
           \<and> (\<forall>inst\<in>set (letterInstances st').
                 inst \<in> set (letterInstances st)
                 \<or> (\<exists>p\<in>set (letterPositions st).
                       x inst = x p \<and> y inst = y p \<and> letter inst = letter p))"
proof (induction n arbitrary: st)
  case 0
  then show ?case by simp
next
  case (Suc n)
  obtain st1 where s1: "redrawBackground e st = Inr st1"
      "length (letterInstances st1) = length (letterInstances st)"
      "letterPositions st1 = letterPositions st"
      "width st1 = width st" "height st1 = height st"
      "tick_pairs e (date_now e (clk st)) st st1"
    using redrawBackground_ok [OF rnd Suc.prems] by blast
  have inv1: "letterPositions st1 \<noteq> [] \<or> letterInstances st1 = []"
    using Suc.prems s1(2,3) by auto
  obtain st' where s': "ticks e n st1 = Inr st'"
      "length (letterInstances st') = length (letterInstances st1)"
      "letterPositions st' = letterPositions st1"
      "width st' = width st1" "height st' = height st1"
      "\<forall>inst\<in>set (letterInstances st').
                 inst \<in> set (letterInstances st1)
                 \<or> (\<exists>p\<in>set (letterPositions st1).
                       x inst = x p \<and> y inst = y p \<and> letter inst = letter p)"
    using Suc.IH [OF inv1] by blast
  have mem: "\<forall>inst\<in>set (letterInstances st').
                 inst \<in> set (letterInstances st)
                 \<or> (\<exists>p\<in>set (letterPositions st).
                       x inst = x p \<and> y inst = y p \<and> letter inst = letter p)"
  proof
    fix inst assume "inst \<in> set (letterInstances st')"
    then consider (a) "inst \<in> set (letterInstances st1)"
      | (b) "\<exists>p\<in>set (letterPositions st). x inst = x p \<and> y inst = y p \<and> letter inst = letter p"
      using s'(6) s1(3) by auto
    then show "inst \<in> set (letterInstances st)
                 \<or> (\<exists>p\<in>set (letterPositions st).
                       x inst = x p \<and> y inst = y p \<and> letter inst = letter p)"
    proof cases
      case a
      from tick_pairs_member [OF s1(6) a] show ?thesis
        by (auto simp: replacement_def)
    next
      case b
      then show ?thesis by simp
    qed
  qed
  show ?case
    using s1 s' mem by simp
qed

lemma initBackground_inv:
  assumes "letterInstances st = []"
  shows "letterPositions (state_of (initBackground e title st)) \<noteq> []
         \<or> letterInstances (state_of (initBackground e title st)) = []"
proof (cases "letterInstances (state_of (initBackground e title st)) = []")
  case True
  then show ?thesis by simp
next
  case False
  then obtain inst where "inst \<in> set (letterInstances (state_of (initBackground e title st)))"
    by (cases "letterInstances (state_of (initBackground e title st))") auto
  from initBackground_instances [OF this] assms
  show ?thesis by auto
qed

lemma resizeBackground_unfold:
  "resizeBackground e w h title st =
     initBackground e title
       (st\<lparr>width := w, height := h, canvas_width := w, canvas_height := h,
           overlayCtx := overlayCtx st @ [ClearRect w h],
           letterInstances := [], letterPositions := []\<rparr>)"
  by (simp add: resizeBackground_def Let_def)

lemma resizeBackground_grid:
  "letterPositions (state_of (resizeBackground e w h title st)) = grid_of w h title
   \<and> width (state_of (resizeBackground e w h title st)) = w
   \<and> height (state_of (resizeBackground e w h title st)) = h"
  using initBackground_frame [of e title
      "st\<lparr>width := w, height := h, canvas_width := w, canvas_height := h,
           overlayCtx := overlayCtx st @ [ClearRect w h],
           letterInstances := [], letterPositions := []\<rparr>"]
  by (simp add: resizeBackground_unfold)

lemma new_PageBackground_grid:
  "letterPositions (state_of (new_PageBackground e w h title)) = grid_of w h title
   \<and> width (state_of (new_PageBackground e w h title)) = w
   \<and> height (state_of (new_PageBackground e w h title)) = h"
  using initBackground_frame [of e title
      "\<lparr>width = w, height = h, canvas_width = w, canvas_height = h,
        letterPositions = [], letterInstances = [], overlayCtx = [], rng = 0, clk = 0\<rparr>"]
  by (simp add: new_PageBackground_def)

lemma grid_of_nth:
  assumes "title \<noteq> []" "i < nat \<lceil>real h / 35\<rceil>" "j < nat \<lceil>real w / 17\<rceil>"
  shows "grid_of w h title ! (i * nat \<lceil>real w / 17\<rceil> + j)
           = \<lparr>x = j * 17, y = i * 35, letter = title ! (j mod length title)\<rparr>"
  using assms nth_rows [OF assms(2,3), of "cell title"]
  by (simp add: grid_of_def cell_def)

subsection \<open>The claims about the sampler and the grid\<close>

lemma seed_loop_Inr_length:
  "seed_loop e rs st = Inr st' \<Longrightarrow>
     length (letterInstances st') = length (letterInstances st) + length rs"
proof (induction rs arbitrary: st)
  case Nil
  then show ?case by simp
next
  case (Cons r rest)
  show ?case
  proof (cases r)
    case None
    then show ?thesis using Cons.prems by simp
  next
    case (Some p)
    show ?thesis
      using Cons.IH [OF Cons.prems [unfolded Some seed_loop_Some]] by simp
  qed
qed

lemma initBackground_Inr_count:
  assumes "initBackground e title st = Inr st'"
  shows "length (letterInstances st') = length (letterInstances st) + target (height st)"
proof (cases "getRandomAmountFromArray (math_random e)
             (letterPositions st @ grid_of (width st) (height st) title)
             (target (height st)) (rng st)")
  case (Inl err)
  then show ?thesis using assms by (simp add: initBackground_unfold)
next
  case (Inr r)
  obtain rs k where r: "r = (rs, k)" by (cases r)
  have len: "length rs = target (height st)"
    using getRandomAmountFromArray_length [OF Inr [unfolded r]] by simp
  have "seed_loop e rs
          (st\<lparr>letterPositions := letterPositions st @ grid_of (width st) (height st) title,
              rng := k, overlayCtx := overlayCtx st @ [Configure]\<rparr>) = Inr st'"
    using assms Inr r by (simp add: initBackground_unfold)
  from seed_loop_Inr_length [OF this] len show ?thesis by simp
qed

lemma target_round: "int (target h) = round (real (nat \<lceil>real h / 35\<rceil>) * 0.75)"
proof -
  have "0 \<le> real (nat \<lceil>real h / 35\<rceil>) * 0.75 + 1 / 2" by simp
  then have "0 \<le> \<lfloor>real (nat \<lceil>real h / 35\<rceil>) * 0.75 + 1 / 2\<rfloor>" by (simp only: zero_le_floor)
  then show ?thesis
    by (simp add: target_def parseInt_toFixed_def round_def)
qed

lemma contract_const: "0 \<le> r \<Longrightarrow> r < 1 \<Longrightarrow>
   \<forall>i. 0 \<le> math_random (env_const r t) i \<and> math_random (env_const r t) i < 1"
  by (simp add: env_const_def)

lemma contract_after: "\<forall>i. 0 \<le> math_random (env_after n t) i \<and> math_random (env_after n t) i < 1"
  by (simp add: env_after_def)

lemma contract_bug: "\<forall>i. 0 \<le> math_random env_bug i \<and> math_random env_bug i < 1"
  by (simp add: env_bug_def)

text \<open>
  Claim C2. With random values in \<open>[0, 1)\<close>, for every array and every count
  \<open>n\<close> up to its length, the sampler returns exactly \<open>n\<close> elements, read from \<open>n\<close>
  pairwise distinct indices of the array. The array is an argument that the sampler
  only reads.
\<close>

theorem sampler_selects_distinct:
  assumes "\<forall>i. 0 \<le> rnd i \<and> rnd i < 1" and "n \<le> length arr"
  shows "\<exists>picked. getRandomAmountFromArray rnd arr n k
                     = Inr (map (\<lambda>i. Some (arr ! i)) picked, k + n)
           \<and> length picked = n \<and> distinct picked \<and> (\<forall>i\<in>set picked. i < length arr)"
  using assms by (rule getRandomAmountFromArray_nat_indices)

theorem sampler_selects_distinct_witness:
  "getRandomAmountFromArray (\<lambda>i. 1 / 2) [10, 20, 30 :: nat] 2 0 = Inr ([Some 30, Some 20], 2)
   \<and> (\<exists>picked. getRandomAmountFromArray (\<lambda>i. 1 / 2) [10, 20, 30 :: nat] 2 0
                  = Inr (map (\<lambda>i. Some ([10, 20, 30] ! i)) picked, 2)
         \<and> length picked = 2 \<and> distinct picked \<and> (\<forall>i\<in>set picked. i < 3))"
proof -
  have r: "\<forall>i::nat. 0 \<le> (1 / 2 :: real) \<and> (1 / 2 :: real) < 1" by simp
  have n: "2 \<le> length [10, 20, 30 :: nat]" by simp
  have "getRandomAmountFromArray (\<lambda>i. 1 / 2) [10, 20, 30 :: nat] 2 0 = Inr ([Some 30, Some 20], 2)"
    by (simp add: getRandomAmountFromArray_def Let_def numeral_2_eq_2 arr_at_def taken_at_def)
  then show ?thesis
    using sampler_selects_distinct [OF r n, of 0] by (simp add: numeral_3_eq_3)
qed

text \<open>
  Claim C6. For every array and every count \<open>n\<close> above its length, the sampler
  returns the \<open>AstroError\<close> to its caller and no result.
\<close>

theorem sampler_rejects_excess:
  assumes "length arr < n"
  shows "getRandomAmountFromArray rnd arr n k
           = Inl (AstroError ''getRandomAmountFromArray: more elements taken than available'')
         \<and> (\<forall>res. getRandomAmountFromArray rnd arr n k \<noteq> Inr res)"
  using assms by (simp add: getRandomAmountFromArray_too_many)

theorem sampler_rejects_excess_witness:
  "getRandomAmountFromArray (\<lambda>i. 0) [CHR ''a'', CHR ''b''] 3 0
     = Inl (AstroError ''getRandomAmountFromArray: more elements taken than available'')"
proof -
  have h: "length [CHR ''a'', CHR ''b''] < 3" by simp
  show ?thesis
    using sampler_rejects_excess [OF h, of "\<lambda>i. 0" 0] by simp
qed

text \<open>
  Claim C3. For every width \<open>w\<close> and height \<open>h\<close> and every non-empty text, the grid that
  a build leaves in \<open>letterPositions\<close> has \<open>ceil(h / 35)\<close> rows of \<open>ceil(w / 17)\<close> cells in
  row-major order; the cell of row \<open>i\<close> and column \<open>j\<close> is at \<open>(17 j, 35 i)\<close> and shows the
  character \<open>title[j mod length title]\<close>. The grid depends on nothing else: a resize
  from any state, with any random source and clock, builds the same grid.
\<close>

theorem grid_builder_layout:
  assumes "title \<noteq> []"
  shows "length (letterPositions (state_of (new_PageBackground e w h title)))
           = nat \<lceil>real h / 35\<rceil> * nat \<lceil>real w / 17\<rceil>
         \<and> (\<forall>i<nat \<lceil>real h / 35\<rceil>. \<forall>j<nat \<lceil>real w / 17\<rceil>.
               letterPositions (state_of (new_PageBackground e w h title))
                 ! (i * nat \<lceil>real w / 17\<rceil> + j)
               = \<lparr>x = j * 17, y = i * 35, letter = title ! (j mod length title)\<rparr>)
         \<and> letterPositions (state_of (resizeBackground e' w h title st))
             = letterPositions (state_of (new_PageBackground e w h title))"
  using assms
  by (simp add: new_PageBackground_grid resizeBackground_grid length_grid_of grid_of_nth)

theorem grid_builder_layout_witness:
  "nat \<lceil>real (100::nat) / 17\<rceil> = 6 \<and> nat \<lceil>real (100::nat) / 35\<rceil> = 3
   \<and> length (letterPositions (state_of (new_PageBackground (env_const 0 0) 100 100 ''ab''))) = 18
   \<and> letterPositions (state_of (new_PageBackground (env_const 0 0) 100 100 ''ab'')) ! 8
       = \<lparr>x = 34, y = 35, letter = CHR ''a''\<rparr>
   \<and> letterPositions (state_of (new_PageBackground (env_const 0 0) 100 100 ''ab'')) ! 17
       = \<lparr>x = 85, y = 70, letter = CHR ''b''\<rparr>"
proof -
  have t: "''ab'' \<noteq> []" by simp
  have c: "nat \<lceil>real (100::nat) / 17\<rceil> = 6" "nat \<lceil>real (100::nat) / 35\<rceil> = 3" by simp_all
  define grid where "grid = letterPositions (state_of (new_PageBackground (env_const 0 0) 100 100 ''ab''))"
  have g: "length grid = 3 * 6
           \<and> (\<forall>i<3. \<forall>j<6. grid ! (i * 6 + j)
                 = \<lparr>x = j * 17, y = i * 35, letter = ''ab'' ! (j mod length ''ab'')\<rparr>)"
    using grid_builder_layout [OF t, of "env_const 0 0" 100 100] unfolding c grid_def by blast
  have at: "grid ! (i * 6 + j)
              = \<lparr>x = j * 17, y = i * 35, letter = ''ab'' ! (j mod length ''ab'')\<rparr>"
    if "i < 3" "j < 6" for i j
    using g that by blast
  have m: "(2::nat) mod Suc (Suc 0) = 0" "(5::nat) mod Suc (Suc 0) = Suc 0"
    by presburger+
  have "grid ! 8 = \<lparr>x = 34, y = 35, letter = CHR ''a''\<rparr>"
    using at [of 1 2] by (simp add: m)
  moreover have "grid ! 17 = \<lparr>x = 85, y = 70, letter = CHR ''b''\<rparr>"
    using at [of 2 5] by (simp add: m)
  moreover have "length grid = 18"
    using g by simp
  ultimately show ?thesis
    using c unfolding grid_def by simp
qed

subsection \<open>The claims about the seed and the active list\<close>

lemma new_PageBackground_seeds:
  assumes rnd: "\<forall>i. 0 \<le> math_random e i \<and> math_random e i < 1" and w: "0 < w"
  shows "\<exists>st'. new_PageBackground e w h title = Inr st'
           \<and> length (letterInstances st') = target h"
  using initBackground_seeds [OF rnd, of
      "\<lparr>width = w, height = h, canvas_width = w, canvas_height = h,
        letterPositions = [], letterInstances = [], overlayCtx = [], rng = 0, clk = 0\<rparr>" title]
    target_le_grid [OF w, of h title]
  by (simp add: new_PageBackground_def)

lemma resizeBackground_seeds:
  assumes rnd: "\<forall>i. 0 \<le> math_random e i \<and> math_random e i < 1" and w: "0 < w"
  shows "\<exists>st'. resizeBackground e w h title st = Inr st'
           \<and> length (letterInstances st') = target h"
  using initBackground_seeds [OF rnd, of
      "st\<lparr>width := w, height := h, canvas_width := w, canvas_height := h,
           overlayCtx := overlayCtx st @ [ClearRect w h],
           letterInstances := [], letterPositions := []\<rparr>" title]
    target_le_grid [OF w, of h title]
  by (simp add: resizeBackground_unfold)

text \<open>
  Claim C7 (as amended). On every build and rebuild of a viewport of positive width,
  the seed step creates exactly \<open>round(rows * 0.75)\<close> instances, \<open>rows\<close> being
  \<open>ceil(h / 35)\<close>: the count follows the rows, not the cells.
\<close>

theorem seed_count_follows_rows:
  assumes "\<forall>i. 0 \<le> math_random e i \<and> math_random e i < 1" and "0 < w"
  shows "(\<exists>st'. new_PageBackground e w h title = Inr st'
            \<and> int (length (letterInstances st')) = round (real (nat \<lceil>real h / 35\<rceil>) * 0.75))
         \<and> (\<exists>st'. resizeBackground e w h title st = Inr st'
            \<and> int (length (letterInstances st')) = round (real (nat \<lceil>real h / 35\<rceil>) * 0.75))"
  using new_PageBackground_seeds [OF assms, of h title]
    resizeBackground_seeds [OF assms, of h title st] target_round [of h]
  by auto

theorem seed_count_follows_rows_witness:
  "nat \<lceil>real (350::nat) / 35\<rceil> = 10
   \<and> (\<exists>st'. new_PageBackground (env_const 0 0) 17 350 ''s'' = Inr st'
          \<and> length (letterInstances st') = 8)"
proof -
  have r: "\<forall>i. 0 \<le> math_random (env_const 0 0) i \<and> math_random (env_const 0 0) i < 1"
    by (simp add: env_const_def)
  have w: "(0::nat) < 17" by simp
  have rows: "nat \<lceil>real (350::nat) / 35\<rceil> = 10" by simp
  have "round (real (10::nat) * 0.75) = 8" by (simp add: round_def)
  then show ?thesis
    using seed_count_follows_rows [OF r w, of 350 "''s''"] rows by auto
qed

text \<open>
  The claim as stated fails on a viewport of width 0 and height 35: the grid has one
  row and no cell, the seed asks for \<open>round(0.75) = 1\<close> cell, the sampler raises and
  no instance is created.
\<close>

theorem zero_width_build_seeds_nothing:
  "(\<exists>st. new_PageBackground (env_const 0 0) 0 35 ''s''
           = Inl (AstroError ''getRandomAmountFromArray: more elements taken than available'', st)
         \<and> letterInstances st = [])
   \<and> round (real (nat \<lceil>real (35::nat) / 35\<rceil>) * 0.75) = 1"
proof -
  have g: "grid_of 0 35 ''s'' = []" by (simp add: grid_of_def)
  have t: "target 35 = 1" by (simp add: target_def parseInt_toFixed_def)
  have "round (real (nat \<lceil>real (35::nat) / 35\<rceil>) * 0.75) = 1" by (simp add: round_def)
  then show ?thesis
    using initBackground_fails [of
      "\<lparr>width = 0, height = 35, canvas_width = 0, canvas_height = 35,
        letterPositions = [], letterInstances = [], overlayCtx = [], rng = 0, clk = 0\<rparr>"
      "''s''" "env_const 0 0"]
    by (simp add: new_PageBackground_def g t)
qed

text \<open>
  The same holds at every positive height: a build of width 0 has at least one row and
  no cell, so the sampler raises and nothing is seeded.
\<close>

lemma target_pos:
  assumes "0 < h"
  shows "1 \<le> target h"
proof -
  define c where "c = \<lceil>real h / 35\<rceil>"
  define r where "r = nat c"
  define f where "f = \<lfloor>real r * 0.75 + 1 / 2\<rfloor>"
  have "0 < real h / 35" using assms by simp
  then have "0 < c" unfolding c_def by (simp only: less_ceiling_iff of_int_0)
  then have "1 \<le> r" by (simp add: r_def)
  then have "1 \<le> real r * 0.75 + 1 / 2" by simp
  then have "1 \<le> f" unfolding f_def by (simp only: le_floor_iff of_int_1)
  then have "1 \<le> nat f" by simp
  moreover have "target h = nat f"
    by (simp only: target_def parseInt_toFixed_def f_def r_def c_def)
  ultimately show ?thesis by simp
qed

lemma zero_width_build_fails:
  assumes "0 < h"
  shows "\<exists>st. new_PageBackground e 0 h title
                = Inl (AstroError ''getRandomAmountFromArray: more elements taken than available'', st)
              \<and> letterInstances st = []"
proof -
  have g: "length (grid_of 0 h title) = 0" by (simp add: length_grid_of)
  have "length ([] @ grid_of 0 h title) < target h"
    using target_pos [OF assms] g by simp
  then show ?thesis
    using initBackground_fails [of
      "\<lparr>width = 0, height = h, canvas_width = 0, canvas_height = h,
        letterPositions = [], letterInstances = [], overlayCtx = [], rng = 0, clk = 0\<rparr>"
      title e]
    by (simp add: new_PageBackground_def)
qed

text \<open>
  Claim C8 (as amended). After a build or rebuild that completed, and after any
  number of ticks, every active instance has the position and character of a cell of
  the current grid, and the number of active instances is \<open>round(0.75 * rows)\<close>.
\<close>

theorem active_within_grid:
  assumes rnd: "\<forall>i. 0 \<le> math_random e i \<and> math_random e i < 1"
    and built: "new_PageBackground e w h title = Inr st
                \<or> resizeBackground e w h title st0 = Inr st"
  shows "\<exists>st'. ticks e n st = Inr st'
           \<and> (\<forall>inst\<in>set (letterInstances st'). \<exists>p\<in>set (letterPositions st').
                 x inst = x p \<and> y inst = y p \<and> letter inst = letter p)
           \<and> height st' = h
           \<and> int (length (letterInstances st'))
               = round (0.75 * real (nat \<lceil>real h / 35\<rceil>))"
proof -
  obtain s0 where s0: "initBackground e title s0 = Inr st" "letterInstances s0 = []"
      "height s0 = h"
    using built by (auto simp: new_PageBackground_def resizeBackground_unfold)
  have st: "st = state_of (initBackground e title s0)" using s0(1) by simp
  have cnt: "length (letterInstances st) = target h"
    using initBackground_Inr_count [OF s0(1)] s0(2,3) by simp
  have hgt: "height st = h"
    using initBackground_frame [of e title s0] s0(3) st by simp
  have inv: "letterPositions st \<noteq> [] \<or> letterInstances st = []"
    unfolding st by (rule initBackground_inv [OF s0(2)])
  have seeded: "\<forall>inst\<in>set (letterInstances st). \<exists>p\<in>set (letterPositions st).
                 x inst = x p \<and> y inst = y p \<and> letter inst = letter p"
  proof
    fix inst assume "inst \<in> set (letterInstances st)"
    then have "inst \<in> set (letterInstances (state_of (initBackground e title s0)))"
      using st by simp
    from initBackground_instances [OF this] s0(2) st
    show "\<exists>p\<in>set (letterPositions st). x inst = x p \<and> y inst = y p \<and> letter inst = letter p"
      by auto
  qed
  obtain st' where t: "ticks e n st = Inr st'"
      "length (letterInstances st') = length (letterInstances st)"
      "letterPositions st' = letterPositions st" "height st' = height st"
      "\<forall>inst\<in>set (letterInstances st').
                 inst \<in> set (letterInstances st)
                 \<or> (\<exists>p\<in>set (letterPositions st).
                       x inst = x p \<and> y inst = y p \<and> letter inst = letter p)"
    using ticks_ok [OF rnd inv, of n] by blast
  have "\<forall>inst\<in>set (letterInstances st'). \<exists>p\<in>set (letterPositions st').
                 x inst = x p \<and> y inst = y p \<and> letter inst = letter p"
    using t(3,5) seeded by auto
  moreover have "int (length (letterInstances st'))
               = round (0.75 * real (nat \<lceil>real h / 35\<rceil>))"
    using t(2) cnt target_round [of h] by (simp add: mult.commute)
  moreover have "height st' = h"
    using t(4) hgt by simp
  ultimately show ?thesis using t(1) by blast
qed

theorem active_within_grid_witness:
  "\<exists>st st'. new_PageBackground (env_const 0 0) 17 100 ''s'' = Inr st
      \<and> ticks (env_const 0 0) 3 st = Inr st'
      \<and> list_all (\<lambda>inst. \<exists>p\<in>set (letterPositions st').
                 x inst = x p \<and> y inst = y p \<and> letter inst = letter p) (letterInstances st')
      \<and> length (letterInstances st') = 2"
proof -
  have r: "\<forall>i. 0 \<le> math_random (env_const 0 0) i \<and> math_random (env_const 0 0) i < 1"
    by (simp add: env_const_def)
  have w: "(0::nat) < 17" by simp
  obtain st where st: "new_PageBackground (env_const 0 0) 17 100 ''s'' = Inr st"
    using new_PageBackground_seeds [OF r w, of 100 "''s''"] by blast
  have "round (0.75 * real (nat \<lceil>real (100::nat) / 35\<rceil>)) = 2" by (simp add: round_def)
  then show ?thesis
    using active_within_grid [OF r disjI1 [OF st], of 3] st
    by (auto simp: list_all_iff)
qed

text \<open>
  The claim as stated gives the size as the ceiling of \<open>0.75 * rows\<close>. A viewport of
  height 100 has three rows: two instances are seeded, and the ceiling of 2.25 is 3.
\<close>

theorem three_rows_seed_two:
  "(\<exists>st. new_PageBackground (env_const 0 0) 17 100 ''s'' = Inr st
         \<and> length (letterInstances st) = 2)
   \<and> nat \<lceil>real (100::nat) / 35\<rceil> = 3
   \<and> \<lceil>0.75 * real (nat \<lceil>real (100::nat) / 35\<rceil>)\<rceil> = 3"
proof -
  have r: "\<forall>i. 0 \<le> math_random (env_const 0 0) i \<and> math_random (env_const 0 0) i < 1"
    by (simp add: env_const_def)
  have w: "(0::nat) < 17" by simp
  have t: "target 100 = 2" by (simp add: target_def parseInt_toFixed_def)
  show ?thesis
    using new_PageBackground_seeds [OF r w, of 100 "''s''"] by (simp add: t)
qed

subsection \<open>The claim about the resize\<close>






lemma seeded_bug:
  "new_PageBackground env_bug 17 70 ''s'' =
     Inr \<lparr>width = 17, height = 70, canvas_width = 17, canvas_height = 70,
          letterPositions = [\<lparr>x = 0, y = 0, letter = CHR ''s''\<rparr>, \<lparr>x = 0, y = 35, letter = CHR ''s''\<rparr>],
          letterInstances =
            [\<lparr>x = 0, y = 35, letter = CHR ''s'', timestamp = 0, fadeout = 2000\<rparr>,
             \<lparr>x = 0, y = 0, letter = CHR ''s'', timestamp = 0, fadeout = 3500\<rparr>],
          overlayCtx = [Configure,
             FillStyle (Num 0), ShadowColor (Num 0), FillText CHR ''s'' 0 35,
             FillStyle (Num 0), ShadowColor (Num 0), FillText CHR ''s'' 0 0],
          rng = 4, clk = 4\<rparr>"
proof -
  have u: "[0..<2] = [0, Suc 0]" by (simp add: numeral_2_eq_2)
  have g: "grid_of 17 70 ''s''
             = [\<lparr>x = 0, y = 0, letter = CHR ''s''\<rparr>, \<lparr>x = 0, y = 35, letter = CHR ''s''\<rparr>]"
    by (simp add: grid_of_def cell_def u)
  have t: "target 70 = 2"
    by (simp add: target_def parseInt_toFixed_def)
  have s: "getRandomAmountFromArray (math_random env_bug) [a, b] 2 0 = Inr ([Some b, Some a], 2)"
    for a b :: letter_position
    by (simp add: getRandomAmountFromArray_def env_bug_def Let_def numeral_2_eq_2
        arr_at_def taken_at_def)
  show ?thesis
    apply (simp add: new_PageBackground_def initBackground_unfold g t s)
    apply (simp add: env_bug_def Let_def animLength_def LETTER_FADE_DURATION_def)
    done
qed


subsection \<open>The claims about the tick\<close>

lemma tick_drawn_Cons:
  "tick_drawn now (l # rest) =
     (if now < fadeout l then tick_drawn now rest
      else if retires now l then l # tick_drawn now (tl rest)
      else l # tick_drawn now rest)"
  by (cases rest) (auto simp: retires_def)

lemma tick_drawn_snoc_fresh:
  "now < fadeout new \<Longrightarrow> tick_drawn now (zs @ [new]) = tick_drawn now zs"
proof (induction now zs rule: tick_drawn.induct)
  case (1 now)
  then show ?case by simp
next
  case (2 now l)
  then show ?case by (simp add: retires_def)
next
  case (3 now l r rest)
  then show ?case by simp
qed

lemma tick_drawn_expired:
  "l \<in> set (tick_drawn now xs) \<Longrightarrow> l \<in> set xs \<and> fadeout l \<le> now"
  by (induction now xs rule: tick_drawn.induct) (auto split: if_splits)

lemma tick_drawn_prefix:
  "tick_drawn now xs
     = filter (\<lambda>l. fadeout l \<le> now) (takeWhile (\<lambda>l. \<not> retires now l) xs)
       @ (case dropWhile (\<lambda>l. \<not> retires now l) xs of
            [] \<Rightarrow> []
          | l # r \<Rightarrow> l # tick_drawn now (tl r))"
proof (induction xs)
  case Nil
  then show ?case by simp
next
  case (Cons a xs)
  show ?case
  proof (cases "retires now a")
    case True
    then have "\<not> now < fadeout a" by (simp add: retires_def)
    then show ?thesis using True by (simp add: tick_drawn_Cons)
  next
    case False
    then show ?thesis using Cons by (simp add: tick_drawn_Cons not_less)
  qed
qed

lemma tick_drawn_lower:
  "j < length xs \<Longrightarrow> fadeout (xs ! j) \<le> now \<Longrightarrow>
   j = 0 \<or> \<not> retires now (xs ! (j - 1)) \<Longrightarrow> xs ! j \<in> set (tick_drawn now xs)"
proof (induction now xs arbitrary: j rule: tick_drawn.induct)
  case (1 now)
  then show ?case by simp
next
  case (2 now l)
  then show ?case by simp
next
  case (3 now l r rest)
  show ?case
  proof (cases j)
    case 0
    then show ?thesis using "3.prems" by simp
  next
    case (Suc j')
    have nth: "(l # r # rest) ! j = (r # rest) ! j'" using Suc by simp
    have len: "j' < length (r # rest)" using "3.prems"(1) Suc by simp
    have ex: "fadeout ((r # rest) ! j') \<le> now" using "3.prems"(2) nth by simp
    show ?thesis
    proof (cases "now < fadeout l")
      case True
      have "j' = 0 \<or> \<not> retires now ((r # rest) ! (j' - 1))"
        using "3.prems"(3) Suc by (cases j') auto
      from "3.IH"(1) [OF True len ex this] show ?thesis using True nth by simp
    next
      case nl: False
      show ?thesis
      proof (cases "retires now l")
        case True
        then obtain j'' where j'': "j' = Suc j''"
          using "3.prems"(3) Suc by (cases j') auto
        have len2: "j'' < length rest" using len j'' by simp
        have ex2: "fadeout (rest ! j'') \<le> now" using ex j'' by simp
        have "j'' = 0 \<or> \<not> retires now (rest ! (j'' - 1))"
          using "3.prems"(3) Suc j'' by (cases j'') auto
        from "3.IH"(2) [OF nl True len2 ex2 this] show ?thesis
          using nl True nth j'' by simp
      next
        case False
        have "j' = 0 \<or> \<not> retires now ((r # rest) ! (j' - 1))"
          using "3.prems"(3) Suc by (cases j') auto
        from "3.IH"(3) [OF nl False len ex this] show ?thesis using nl False nth by simp
      qed
    qed
  qed
qed

lemma drop_splice1_snoc:
  assumes "i < length ys"
  shows "drop (Suc i) (splice1 i ys @ [a]) = drop 1 (drop (Suc i) ys @ [a])"
  using assms by (simp add: splice1_def)

lemma set_subset_splice1: "i < length ys \<Longrightarrow> set ys \<subseteq> set (splice1 i ys) \<union> {ys ! i}"
proof -
  assume a: "i < length ys"
  have "ys = take i ys @ ys ! i # drop (Suc i) ys"
    using a by (rule id_take_nth_drop)
  then have "set ys = set (take i ys @ ys ! i # drop (Suc i) ys)" by simp
  then show ?thesis by (auto simp: splice1_def)
qed

lemma redraw_loop_drawn:
  assumes rnd: "\<forall>i. 0 \<le> math_random e i \<and> math_random e i < 1"
  shows "letterPositions st \<noteq> [] \<or> letterInstances st = [] \<Longrightarrow>
         redraw_loop e now i st = Inr st' \<Longrightarrow>
         overlayCtx st' = overlayCtx st
            @ concat (map (draw_ops now) (tick_drawn now (drop i (letterInstances st))))
         \<and> set (letterInstances st)
             \<subseteq> set (letterInstances st') \<union> set (tick_drawn now (drop i (letterInstances st)))"
proof (induction "length (letterInstances st) - i" arbitrary: i st rule: less_induct)
  case less
  show ?case
  proof (cases "i < length (letterInstances st)")
    case False
    then have "st' = st" using less.prems(2) by (simp add: redraw_loop_done)
    then show ?thesis using False by simp
  next
    case True
    then have grid: "letterPositions st \<noteq> []" using less.prems(1) by auto
    have d: "drop i (letterInstances st)
               = letterInstances st ! i # drop (Suc i) (letterInstances st)"
      using True by (simp add: Cons_nth_drop_Suc)
    show ?thesis
    proof (cases rule: redraw_loop_step [OF rnd True grid, of now])
      case 1
      have "overlayCtx st' = overlayCtx st
            @ concat (map (draw_ops now) (tick_drawn now (drop (i + 1) (letterInstances st))))
         \<and> set (letterInstances st)
             \<subseteq> set (letterInstances st') \<union> set (tick_drawn now (drop (i + 1) (letterInstances st)))"
        using less.hyps [of st "i + 1"] less.prems True 1(2) by fastforce
      then show ?thesis using 1(1) d by (simp add: tick_drawn_Cons)
    next
      case 2
      define st2 where "st2 = st\<lparr>overlayCtx := overlayCtx st @ draw_ops now (letterInstances st ! i)\<rparr>"
      have "overlayCtx st' = overlayCtx st2
            @ concat (map (draw_ops now) (tick_drawn now (drop (i + 1) (letterInstances st2))))
         \<and> set (letterInstances st2)
             \<subseteq> set (letterInstances st') \<union> set (tick_drawn now (drop (i + 1) (letterInstances st2)))"
        using less.hyps [of st2 "i + 1"] less.prems True 2(3) by (fastforce simp: st2_def)
      then show ?thesis using 2(1,2) d by (auto simp: tick_drawn_Cons st2_def)
    next
      case (3 p)
      define new where "new = replacement e now p (rng st + 1)"
      define st2 where "st2 = st\<lparr>rng := rng st + 1 + 1,
                 letterInstances := splice1 i (letterInstances st) @ [new],
                 overlayCtx := overlayCtx st @ draw_ops now (letterInstances st ! i)\<rparr>"
      have len2: "length (letterInstances st2) = length (letterInstances st)"
        using length_splice1_snoc [OF True, of new] by (simp add: st2_def)
      have ih: "overlayCtx st' = overlayCtx st2
            @ concat (map (draw_ops now) (tick_drawn now (drop (i + 1) (letterInstances st2))))
         \<and> set (letterInstances st2)
             \<subseteq> set (letterInstances st') \<union> set (tick_drawn now (drop (i + 1) (letterInstances st2)))"
        using less.hyps [of st2 "i + 1"] less.prems True len2 grid 3(3)
        by (fastforce simp: st2_def new_def)
      have fresh: "now < fadeout new"
        unfolding new_def using rnd by (intro replacement_fresh) simp
      have le: "\<not> now < fadeout (letterInstances st ! i)"
        using 3(2) by (simp add: retires_def)
      have dr: "tick_drawn now (drop (i + 1) (letterInstances st2))
                  = tick_drawn now (tl (drop (Suc i) (letterInstances st)))"
      proof (cases "drop (Suc i) (letterInstances st)")
        case Nil
        then show ?thesis
          using drop_splice1_snoc [OF True, of new] by (simp add: st2_def)
      next
        case (Cons r rs)
        then show ?thesis
          using drop_splice1_snoc [OF True, of new] tick_drawn_snoc_fresh [OF fresh, of rs]
          by (simp add: st2_def)
      qed
      have td: "tick_drawn now (drop i (letterInstances st))
                  = letterInstances st ! i # tick_drawn now (tl (drop (Suc i) (letterInstances st)))"
        using d le 3(2) by (simp add: tick_drawn_Cons)
      have s: "set (letterInstances st) \<subseteq> set (letterInstances st2) \<union> {letterInstances st ! i}"
        using set_subset_splice1 [OF True] by (auto simp: st2_def)
      have "overlayCtx st' = overlayCtx st
            @ concat (map (draw_ops now) (tick_drawn now (drop i (letterInstances st))))"
        using ih dr td by (simp add: st2_def)
      moreover have "set (letterInstances st)
             \<subseteq> set (letterInstances st') \<union> set (tick_drawn now (drop i (letterInstances st)))"
        using ih s unfolding dr td by auto
      ultimately show ?thesis by simp
    qed
  qed
qed

lemma ease_bug: "easeInOutSine 3500 0 2000 = Num (- 1)"
proof -
  have "(3500 - 2000) / ((2000 - 0) / 2) * pi = 3 / 2 * pi" by simp
  then have "sin ((3500 - 2000) / ((2000 - 0) / 2) * pi) = - 1"
    by (simp only: sin_3over2_pi)
  then show ?thesis
    using easeInOutSine_after [of 0 2000 3500] by simp
qed

lemma built_inv:
  assumes "st = state_of (new_PageBackground e w h title)
           \<or> st = state_of (resizeBackground e w h title st0)"
  shows "letterPositions st \<noteq> [] \<or> letterInstances st = []"
  using assms
    initBackground_inv [of "\<lparr>width = w, height = h, canvas_width = w, canvas_height = h,
        letterPositions = [], letterInstances = [], overlayCtx = [], rng = 0, clk = 0\<rparr>" e title]
    initBackground_inv [of "st0\<lparr>width := w, height := h, canvas_width := w, canvas_height := h,
           overlayCtx := overlayCtx st0 @ [ClearRect w h],
           letterInstances := [], letterPositions := []\<rparr>" e title]
  by (auto simp: new_PageBackground_def resizeBackground_unfold)

text \<open>
  Claim C5. From the state that a build or a rebuild leaves, any number of ticks
  leaves the number of active instances unchanged; and in the tick that follows, the
  instances removed and the instances pushed are equally many: each removed instance
  was active, past its \<open>fadeout\<close> and eased to at most 0, and each pushed instance has
  the position and character of a cell of the grid, the tick's time as its timestamp and
  a duration computed from a random value of its own.
\<close>

theorem active_count_constant:
  assumes rnd: "\<forall>i. 0 \<le> math_random e i \<and> math_random e i < 1"
    and built: "st = state_of (new_PageBackground e w h title)
                \<or> st = state_of (resizeBackground e w h title st0)"
  shows "\<exists>st' st'' retired news.
           ticks e n st = Inr st'
           \<and> length (letterInstances st') = length (letterInstances st)
           \<and> redrawBackground e st' = Inr st''
           \<and> length (letterInstances st'') = length (letterInstances st)
           \<and> mset (letterInstances st'') + mset retired = mset (letterInstances st') + mset news
           \<and> length retired = length news
           \<and> (\<forall>l\<in>set retired.
                 l \<in> set (letterInstances st') \<and> fadeout l < date_now e (clk st')
                 \<and> number_le (easeInOutSine (date_now e (clk st')) (timestamp l) (fadeout l)) 0)
           \<and> (\<forall>inst\<in>set news.
                 timestamp inst = date_now e (clk st')
                 \<and> (\<exists>p\<in>set (letterPositions st').
                       x inst = x p \<and> y inst = y p \<and> letter inst = letter p)
                 \<and> (\<exists>k. fadeout inst
                          = date_now e (clk st') + animLength (math_random e k) * 1000))"
proof -
  have inv: "letterPositions st \<noteq> [] \<or> letterInstances st = []"
    using built by (rule built_inv)
  obtain st' where t: "ticks e n st = Inr st'"
      "length (letterInstances st') = length (letterInstances st)"
      "letterPositions st' = letterPositions st"
    using ticks_ok [OF rnd inv, of n] by blast
  have inv': "letterPositions st' \<noteq> [] \<or> letterInstances st' = []"
    using inv t(2,3) by auto
  obtain st'' where f: "redrawBackground e st' = Inr st''"
      "length (letterInstances st'') = length (letterInstances st')"
      "tick_pairs e (date_now e (clk st')) st' st''"
    using redrawBackground_ok [OF rnd inv'] by blast
  obtain retired news where p:
      "mset (letterInstances st'') + mset retired = mset (letterInstances st') + mset news"
      "length retired = length news"
      "\<forall>l\<in>set retired. l \<in> set (letterInstances st') \<and> retires (date_now e (clk st')) l"
      "\<forall>inst\<in>set news. \<exists>p\<in>set (letterPositions st'). \<exists>k.
          inst = replacement e (date_now e (clk st')) p k"
    using f(3) unfolding tick_pairs_def by blast
  have r: "\<forall>l\<in>set retired.
                 l \<in> set (letterInstances st') \<and> fadeout l < date_now e (clk st')
                 \<and> number_le (easeInOutSine (date_now e (clk st')) (timestamp l) (fadeout l)) 0"
    using p(3) by (auto simp: retires_def)
  have n: "\<forall>inst\<in>set news.
                 timestamp inst = date_now e (clk st')
                 \<and> (\<exists>p\<in>set (letterPositions st').
                       x inst = x p \<and> y inst = y p \<and> letter inst = letter p)
                 \<and> (\<exists>k. fadeout inst
                          = date_now e (clk st') + animLength (math_random e k) * 1000)"
  proof
    fix inst assume "inst \<in> set news"
    then obtain q k where q: "q \<in> set (letterPositions st')"
        "inst = replacement e (date_now e (clk st')) q k"
      using p(4) by blast
    have "x inst = x q \<and> y inst = y q \<and> letter inst = letter q"
      using q(2) by (simp add: replacement_def)
    moreover have "fadeout inst = date_now e (clk st') + animLength (math_random e k) * 1000"
      using q(2) by (simp add: replacement_def)
    moreover have "timestamp inst = date_now e (clk st')"
      using q(2) by (simp add: replacement_def)
    ultimately show "timestamp inst = date_now e (clk st')
                 \<and> (\<exists>p\<in>set (letterPositions st').
                       x inst = x p \<and> y inst = y p \<and> letter inst = letter p)
                 \<and> (\<exists>k. fadeout inst
                          = date_now e (clk st') + animLength (math_random e k) * 1000)"
      using q(1) by blast
  qed
  have "length (letterInstances st'') = length (letterInstances st)"
    using f(2) t(2) by simp
  then show ?thesis
    using t(1,2) f(1) p(1,2) r n by blast
qed

theorem active_count_constant_witness:
  "length (letterInstances (state_of (new_PageBackground env_bug 17 70 ''s''))) = 2
   \<and> (\<exists>st' st''. ticks env_bug 5 (state_of (new_PageBackground env_bug 17 70 ''s'')) = Inr st'
         \<and> length (letterInstances st') = 2
         \<and> redrawBackground env_bug st' = Inr st''
         \<and> length (letterInstances st'') = 2)"
proof -
  have l: "length (letterInstances (state_of (new_PageBackground env_bug 17 70 ''s''))) = 2"
    by (simp add: seeded_bug)
  have b: "state_of (new_PageBackground env_bug 17 70 ''s'')
             = state_of (new_PageBackground env_bug 17 70 ''s'')
           \<or> state_of (new_PageBackground env_bug 17 70 ''s'')
             = state_of (resizeBackground env_bug 17 70 ''s''
                  (state_of (new_PageBackground env_bug 17 70 ''s'')))"
    by simp
  show ?thesis
    using active_count_constant [OF contract_bug b, of 5] l by auto
qed

lemma draw_ops_eq:
  "draw_ops now = (\<lambda>l. [FillStyle (easeInOutSine now (timestamp l) (fadeout l)),
                          ShadowColor (easeInOutSine now (timestamp l) (fadeout l)),
                          FillText (letter l) (x l) (y l)])"
  by (rule ext) (simp add: draw_ops_def Let_def)

text \<open>
  Claim C4 (as amended). On every tick the surface is cleared first, and after that
  only instances whose \<open>fadeout\<close> has passed (\<open>fadeout \<le> now\<close>) are drawn, each with
  \<open>alpha = ease(now, timestamp, fadeout)\<close> as its fill and as its shadow; an instance
  whose \<open>fadeout\<close> is still ahead is skipped and not drawn. The instances with
  \<open>fadeout \<le> now\<close> that stand before the first instance that retires are drawn in the
  order of the active list, and then that instance is drawn; every instance with
  \<open>fadeout \<le> now\<close> that is the first of the list or whose predecessor in the list does
  not retire is drawn; and an instance leaves the active list only in a tick that drew
  it. In a tick that retires no instance, the instances drawn are exactly those with
  \<open>fadeout \<le> now\<close>, in the order of the active list. (\<open>retires\<close> is the test of line
  188.)
\<close>

theorem tick_draws_expired_only:
  assumes rnd: "\<forall>i. 0 \<le> math_random e i \<and> math_random e i < 1"
    and inv: "letterPositions st \<noteq> [] \<or> letterInstances st = []"
  shows "\<exists>st' ds.
           redrawBackground e st = Inr st'
           \<and> overlayCtx st' = overlayCtx st
               @ ClearRect (canvas_width st) (canvas_height st)
                 # concat (map (\<lambda>l.
                     [FillStyle (easeInOutSine (date_now e (clk st)) (timestamp l) (fadeout l)),
                      ShadowColor (easeInOutSine (date_now e (clk st)) (timestamp l) (fadeout l)),
                      FillText (letter l) (x l) (y l)]) ds)
           \<and> (\<forall>l\<in>set ds. l \<in> set (letterInstances st) \<and> fadeout l \<le> date_now e (clk st))
           \<and> ((\<forall>l\<in>set (letterInstances st).
                  \<not> (number_le (easeInOutSine (date_now e (clk st)) (timestamp l) (fadeout l)) 0
                     \<and> fadeout l < date_now e (clk st)))
                \<longrightarrow> ds = filter (\<lambda>l. fadeout l \<le> date_now e (clk st)) (letterInstances st))
           \<and> (\<exists>rest. ds
                 = filter (\<lambda>l. fadeout l \<le> date_now e (clk st))
                     (takeWhile (\<lambda>l. \<not> retires (date_now e (clk st)) l) (letterInstances st))
                   @ (case dropWhile (\<lambda>l. \<not> retires (date_now e (clk st)) l) (letterInstances st) of
                        [] \<Rightarrow> []
                      | l # r \<Rightarrow> l # rest))
           \<and> (\<forall>j<length (letterInstances st).
                 fadeout (letterInstances st ! j) \<le> date_now e (clk st)
                 \<and> (j = 0 \<or> \<not> retires (date_now e (clk st)) (letterInstances st ! (j - 1)))
                 \<longrightarrow> letterInstances st ! j \<in> set ds)
           \<and> (\<forall>l\<in>set (letterInstances st). l \<notin> set (letterInstances st') \<longrightarrow> l \<in> set ds)"
proof -
  define now where "now = date_now e (clk st)"
  define xs where "xs = letterInstances st"
  define ds where "ds = tick_drawn now xs"
  define st1 where "st1 = st\<lparr>overlayCtx := overlayCtx st @ [ClearRect (canvas_width st) (canvas_height st)],
             clk := clk st + 1\<rparr>"
  have inv1: "letterPositions st1 \<noteq> [] \<or> letterInstances st1 = []"
    using inv by (simp add: st1_def)
  obtain st' where r: "redrawBackground e st = Inr st'"
    using redrawBackground_ok [OF rnd inv] by blast
  then have r1: "redraw_loop e now 0 st1 = Inr st'"
    by (simp add: redrawBackground_unfold st1_def now_def)
  from redraw_loop_drawn [OF rnd inv1 r1]
  have o: "overlayCtx st' = overlayCtx st
               @ ClearRect (canvas_width st) (canvas_height st) # concat (map (draw_ops now) ds)"
    and keep: "set xs \<subseteq> set (letterInstances st') \<union> set ds"
    by (simp_all add: st1_def ds_def xs_def)
  have up: "\<forall>l\<in>set ds. l \<in> set xs \<and> fadeout l \<le> now"
    using tick_drawn_expired [of _ now xs] by (simp add: ds_def)
  have pre: "ds = filter (\<lambda>l. fadeout l \<le> now) (takeWhile (\<lambda>l. \<not> retires now l) xs)
                   @ (case dropWhile (\<lambda>l. \<not> retires now l) xs of
                        [] \<Rightarrow> []
                      | l # r \<Rightarrow> l # tick_drawn now (tl r))"
    unfolding ds_def by (rule tick_drawn_prefix)
  have nr: "(\<forall>l\<in>set xs. \<not> (number_le (easeInOutSine now (timestamp l) (fadeout l)) 0
                     \<and> fadeout l < now))
                \<longrightarrow> ds = filter (\<lambda>l. fadeout l \<le> now) xs"
  proof
    assume "\<forall>l\<in>set xs. \<not> (number_le (easeInOutSine now (timestamp l) (fadeout l)) 0
                     \<and> fadeout l < now)"
    then have a: "\<forall>l\<in>set xs. \<not> retires now l" by (simp add: retires_def)
    then have tw: "takeWhile (\<lambda>l. \<not> retires now l) xs = xs"
      and dw: "dropWhile (\<lambda>l. \<not> retires now l) xs = []"
      by (simp_all add: takeWhile_eq_all_conv)
    show "ds = filter (\<lambda>l. fadeout l \<le> now) xs"
      unfolding pre tw dw by simp
  qed
  have low: "\<forall>j<length xs. fadeout (xs ! j) \<le> now
                 \<and> (j = 0 \<or> \<not> retires now (xs ! (j - 1))) \<longrightarrow> xs ! j \<in> set ds"
    using tick_drawn_lower [of _ xs now] by (simp add: ds_def)
  have gone: "\<forall>l\<in>set xs. l \<notin> set (letterInstances st') \<longrightarrow> l \<in> set ds"
    using keep by auto
  have ex: "\<exists>rest. ds = filter (\<lambda>l. fadeout l \<le> now) (takeWhile (\<lambda>l. \<not> retires now l) xs)
                   @ (case dropWhile (\<lambda>l. \<not> retires now l) xs of
                        [] \<Rightarrow> []
                      | l # r \<Rightarrow> l # rest)"
  proof (cases "dropWhile (\<lambda>l. \<not> retires now l) xs")
    case Nil
    show ?thesis unfolding pre Nil by simp
  next
    case (Cons l r)
    show ?thesis unfolding pre Cons by simp
  qed
  show ?thesis
    using r o [unfolded draw_ops_eq] up nr ex low gone
    unfolding now_def xs_def by blast
qed

lemma seeded_one:
  "new_PageBackground (env_after 2 t) 17 35 ''s'' =
     Inr \<lparr>width = 17, height = 35, canvas_width = 17, canvas_height = 35,
          letterPositions = [\<lparr>x = 0, y = 0, letter = CHR ''s''\<rparr>],
          letterInstances = [\<lparr>x = 0, y = 0, letter = CHR ''s'', timestamp = 0, fadeout = 2000\<rparr>],
          overlayCtx = [Configure, FillStyle (Num 0), ShadowColor (Num 0), FillText CHR ''s'' 0 0],
          rng = 2, clk = 2\<rparr>"
proof -
  have g: "grid_of 17 35 ''s'' = [\<lparr>x = 0, y = 0, letter = CHR ''s''\<rparr>]"
    by (simp add: grid_of_def cell_def)
  have t: "target 35 = 1"
    by (simp add: target_def parseInt_toFixed_def)
  have s: "getRandomAmountFromArray (math_random (env_after 2 t)) [a] (Suc 0) 0
             = Inr ([Some a], 1)"
    for a :: letter_position
    by (simp add: getRandomAmountFromArray_def env_after_def Let_def arr_at_def taken_at_def)
  show ?thesis
    apply (simp add: new_PageBackground_def initBackground_unfold g t s)
    apply (simp add: env_after_def Let_def animLength_def LETTER_FADE_DURATION_def)
    done
qed

text \<open>
  The claim as stated has every active instance drawn, also one whose \<open>fadeout\<close> is still
  ahead. One instance is seeded at time 0 with \<open>fadeout = 2000\<close>; at the tick of time
  1000 its alpha would be 0.5, and the tick clears the surface and draws nothing.
\<close>

theorem tick_skips_unexpired_instance:
  "easeInOutSine 1000 0 2000 = Num (1 / 2)
   \<and> (\<exists>st. new_PageBackground (env_after 2 1000) 17 35 ''s'' = Inr st
          \<and> letterInstances st
              = [\<lparr>x = 0, y = 0, letter = CHR ''s'', timestamp = 0, fadeout = 2000\<rparr>]
          \<and> date_now (env_after 2 1000) (clk st) = 1000
          \<and> redrawBackground (env_after 2 1000) st
              = Inr (st\<lparr>overlayCtx := overlayCtx st @ [ClearRect 17 35], clk := 3\<rparr>))"
proof -
  have e: "easeInOutSine 1000 0 2000 = Num (1 / 2)"
    using easeInOutSine_midpoint [of 0 2000] by simp
  define st where "st = \<lparr>width = 17, height = 35, canvas_width = 17, canvas_height = 35,
          letterPositions = [\<lparr>x = 0, y = 0, letter = CHR ''s''\<rparr>],
          letterInstances = [\<lparr>x = 0, y = 0, letter = CHR ''s'', timestamp = 0, fadeout = 2000\<rparr>],
          overlayCtx = [Configure, FillStyle (Num 0), ShadowColor (Num 0), FillText CHR ''s'' 0 0],
          rng = 2, clk = 2::nat\<rparr>"
  define st1 where "st1 = st\<lparr>overlayCtx := overlayCtx st @ [ClearRect 17 35], clk := 3\<rparr>"
  have now: "date_now (env_after 2 1000) (clk st) = 1000"
    by (simp add: env_after_def st_def)
  have a: "redrawBackground (env_after 2 1000) st = redraw_loop (env_after 2 1000) 1000 0 st1"
    using now by (simp add: redrawBackground_unfold st_def st1_def)
  have b: "redraw_loop (env_after 2 1000) 1000 0 st1
             = redraw_loop (env_after 2 1000) 1000 (0 + 1) st1"
    by (rule redraw_loop_skip) (simp_all add: st1_def st_def)
  have c: "redraw_loop (env_after 2 1000) 1000 (0 + 1) st1 = Inr st1"
    by (rule redraw_loop_done) (simp add: st1_def st_def)
  have "new_PageBackground (env_after 2 1000) 17 35 ''s'' = Inr st"
    unfolding st_def by (rule seeded_one)
  moreover have "letterInstances st
              = [\<lparr>x = 0, y = 0, letter = CHR ''s'', timestamp = 0, fadeout = 2000\<rparr>]"
    by (simp add: st_def)
  moreover have "redrawBackground (env_after 2 1000) st
              = Inr (st\<lparr>overlayCtx := overlayCtx st @ [ClearRect 17 35], clk := 3\<rparr>)"
    using a b c by (simp add: st1_def)
  ultimately show ?thesis using e now by blast
qed

theorem tick_draws_expired_only_witness:
  "(\<exists>st st'. new_PageBackground (env_after 2 2500) 17 35 ''s'' = Inr st
      \<and> letterInstances st
          = [\<lparr>x = 0, y = 0, letter = CHR ''s'', timestamp = 0, fadeout = 2000\<rparr>]
      \<and> date_now (env_after 2 2500) (clk st) = 2500
      \<and> redrawBackground (env_after 2 2500) st = Inr st'
      \<and> overlayCtx st' = overlayCtx st
           @ [ClearRect 17 35, FillStyle (Num 1), ShadowColor (Num 1), FillText CHR ''s'' 0 0])
   \<and> (\<exists>st st' rest. new_PageBackground env_bug 17 70 ''s'' = Inr st
      \<and> letterInstances st
          = [\<lparr>x = 0, y = 35, letter = CHR ''s'', timestamp = 0, fadeout = 2000\<rparr>,
             \<lparr>x = 0, y = 0, letter = CHR ''s'', timestamp = 0, fadeout = 3500\<rparr>]
      \<and> date_now env_bug (clk st) = 3500
      \<and> redrawBackground env_bug st = Inr st'
      \<and> overlayCtx st' = overlayCtx st
           @ [ClearRect 17 70, FillStyle (Num (- 1)), ShadowColor (Num (- 1)),
              FillText CHR ''s'' 0 35]
           @ rest)"
proof -
  have first: "\<exists>st st'. new_PageBackground (env_after 2 2500) 17 35 ''s'' = Inr st
      \<and> letterInstances st
          = [\<lparr>x = 0, y = 0, letter = CHR ''s'', timestamp = 0, fadeout = 2000\<rparr>]
      \<and> date_now (env_after 2 2500) (clk st) = 2500
      \<and> redrawBackground (env_after 2 2500) st = Inr st'
      \<and> overlayCtx st' = overlayCtx st
           @ [ClearRect 17 35, FillStyle (Num 1), ShadowColor (Num 1), FillText CHR ''s'' 0 0]"
  proof -
    define st where "st = \<lparr>width = 17, height = 35, canvas_width = 17, canvas_height = 35,
          letterPositions = [\<lparr>x = 0, y = 0, letter = CHR ''s''\<rparr>],
          letterInstances = [\<lparr>x = 0, y = 0, letter = CHR ''s'', timestamp = 0, fadeout = 2000\<rparr>],
          overlayCtx = [Configure, FillStyle (Num 0), ShadowColor (Num 0), FillText CHR ''s'' 0 0],
          rng = 2, clk = 2::nat\<rparr>"
    have b: "new_PageBackground (env_after 2 2500) 17 35 ''s'' = Inr st"
      unfolding st_def by (rule seeded_one)
    have now: "date_now (env_after 2 2500) (clk st) = 2500"
      by (simp add: env_after_def st_def)
    have "(2500 - 2000) / ((2000 - 0) / 2) * pi = pi / 2" by simp
    then have "sin ((2500 - 2000) / ((2000 - 0) / 2) * pi) = 1"
      by (simp only: sin_pi_half)
    then have e: "easeInOutSine 2500 0 2000 = Num 1"
      using easeInOutSine_after [of 0 2000 2500] by simp
    have inv: "letterPositions st \<noteq> [] \<or> letterInstances st = []"
      by (simp add: st_def)
    obtain st' ds where r: "redrawBackground (env_after 2 2500) st = Inr st'"
      "overlayCtx st' = overlayCtx st
               @ ClearRect (canvas_width st) (canvas_height st)
                 # concat (map (\<lambda>l.
                     [FillStyle (easeInOutSine (date_now (env_after 2 2500) (clk st)) (timestamp l) (fadeout l)),
                      ShadowColor (easeInOutSine (date_now (env_after 2 2500) (clk st)) (timestamp l) (fadeout l)),
                      FillText (letter l) (x l) (y l)]) ds)"
      "(\<forall>l\<in>set (letterInstances st).
                  \<not> (number_le (easeInOutSine (date_now (env_after 2 2500) (clk st)) (timestamp l) (fadeout l)) 0
                     \<and> fadeout l < date_now (env_after 2 2500) (clk st)))
                \<longrightarrow> ds = filter (\<lambda>l. fadeout l \<le> date_now (env_after 2 2500) (clk st)) (letterInstances st)"
      using tick_draws_expired_only [OF contract_after inv, of 2 2500] by blast
    have ds: "ds = [\<lparr>x = 0, y = 0, letter = CHR ''s'', timestamp = 0, fadeout = 2000\<rparr>]"
      using r(3) unfolding now by (simp add: st_def e)
    have "overlayCtx st' = overlayCtx st
           @ [ClearRect 17 35, FillStyle (Num 1), ShadowColor (Num 1), FillText CHR ''s'' 0 0]"
      using r(2) unfolding now ds by (simp add: e st_def)
    moreover have "letterInstances st
          = [\<lparr>x = 0, y = 0, letter = CHR ''s'', timestamp = 0, fadeout = 2000\<rparr>]"
      by (simp add: st_def)
    ultimately show ?thesis using b now r(1) by blast
  qed
  have second: "\<exists>st st' rest. new_PageBackground env_bug 17 70 ''s'' = Inr st
      \<and> letterInstances st
          = [\<lparr>x = 0, y = 35, letter = CHR ''s'', timestamp = 0, fadeout = 2000\<rparr>,
             \<lparr>x = 0, y = 0, letter = CHR ''s'', timestamp = 0, fadeout = 3500\<rparr>]
      \<and> date_now env_bug (clk st) = 3500
      \<and> redrawBackground env_bug st = Inr st'
      \<and> overlayCtx st' = overlayCtx st
           @ [ClearRect 17 70, FillStyle (Num (- 1)), ShadowColor (Num (- 1)),
              FillText CHR ''s'' 0 35]
           @ rest"
  proof -
    define a where "a = \<lparr>x = 0::nat, y = 35::nat, letter = CHR ''s'', timestamp = 0::real, fadeout = 2000::real\<rparr>"
    define b where "b = \<lparr>x = 0::nat, y = 0::nat, letter = CHR ''s'', timestamp = 0::real, fadeout = 3500::real\<rparr>"
    define st where "st = \<lparr>width = 17, height = 70, canvas_width = 17, canvas_height = 70,
          letterPositions = [\<lparr>x = 0, y = 0, letter = CHR ''s''\<rparr>, \<lparr>x = 0, y = 35, letter = CHR ''s''\<rparr>],
          letterInstances = [a, b],
          overlayCtx = [Configure,
             FillStyle (Num 0), ShadowColor (Num 0), FillText CHR ''s'' 0 35,
             FillStyle (Num 0), ShadowColor (Num 0), FillText CHR ''s'' 0 0],
          rng = 4, clk = 4::nat\<rparr>"
    have bld: "new_PageBackground env_bug 17 70 ''s'' = Inr st"
      unfolding st_def a_def b_def by (rule seeded_bug)
    have now: "date_now env_bug (clk st) = 3500"
      by (simp add: env_bug_def st_def)
    have inv: "letterPositions st \<noteq> [] \<or> letterInstances st = []"
      by (simp add: st_def)
    have ra: "retires 3500 a"
      by (simp add: retires_def a_def ease_bug)
    obtain st' ds rest where r: "redrawBackground env_bug st = Inr st'"
      "overlayCtx st' = overlayCtx st
               @ ClearRect (canvas_width st) (canvas_height st)
                 # concat (map (\<lambda>l.
                     [FillStyle (easeInOutSine (date_now env_bug (clk st)) (timestamp l) (fadeout l)),
                      ShadowColor (easeInOutSine (date_now env_bug (clk st)) (timestamp l) (fadeout l)),
                      FillText (letter l) (x l) (y l)]) ds)"
      "ds = filter (\<lambda>l. fadeout l \<le> date_now env_bug (clk st))
                     (takeWhile (\<lambda>l. \<not> retires (date_now env_bug (clk st)) l) (letterInstances st))
                   @ (case dropWhile (\<lambda>l. \<not> retires (date_now env_bug (clk st)) l) (letterInstances st) of
                        [] \<Rightarrow> []
                      | l # r \<Rightarrow> l # rest)"
      using tick_draws_expired_only [OF contract_bug inv] by blast
    have ds: "ds = a # rest"
      using r(3) ra unfolding now by (simp add: st_def)
    have "overlayCtx st' = overlayCtx st
           @ [ClearRect 17 70, FillStyle (Num (- 1)), ShadowColor (Num (- 1)),
              FillText CHR ''s'' 0 35]
           @ concat (map (\<lambda>l.
                     [FillStyle (easeInOutSine 3500 (timestamp l) (fadeout l)),
                      ShadowColor (easeInOutSine 3500 (timestamp l) (fadeout l)),
                      FillText (letter l) (x l) (y l)]) rest)"
      using r(2) unfolding now ds by (simp add: st_def a_def ease_bug)
    moreover have "letterInstances st
          = [\<lparr>x = 0, y = 35, letter = CHR ''s'', timestamp = 0, fadeout = 2000\<rparr>,
             \<lparr>x = 0, y = 0, letter = CHR ''s'', timestamp = 0, fadeout = 3500\<rparr>]"
      by (simp add: st_def a_def b_def)
    ultimately show ?thesis using bld now r(1) by blast
  qed
  show ?thesis using first second by (rule conjI)
qed

text \<open>
  Claim C10 at a failing input. The build of a viewport of width 17 and height 70
  with the title \<open>s\<close> seeds two instances at time 0, the first with \<open>fadeout = 2000\<close>, the
  second with \<open>fadeout = 3500\<close>. The tick of time 3500 finds the first one expired with
  alpha -1: it removes it, pushes a replacement and draws it. The second instance, whose
  \<open>fadeout\<close> equals the tick's time and whose alpha is 1, has moved to the index just
  visited: the iteration goes on to the replacement and never reaches it. It stays in the
  active list and is not drawn.
\<close>

theorem tick_skips_instance_after_retired:
  "letterInstances (state_of (new_PageBackground env_bug 17 70 ''s''))
     = [\<lparr>x = 0, y = 35, letter = CHR ''s'', timestamp = 0, fadeout = 2000\<rparr>,
        \<lparr>x = 0, y = 0, letter = CHR ''s'', timestamp = 0, fadeout = 3500\<rparr>]
   \<and> date_now env_bug (clk (state_of (new_PageBackground env_bug 17 70 ''s''))) = 3500
   \<and> easeInOutSine 3500 0 3500 = Num 1
   \<and> redrawBackground env_bug (state_of (new_PageBackground env_bug 17 70 ''s'')) =
       Inr \<lparr>width = 17, height = 70, canvas_width = 17, canvas_height = 70,
          letterPositions = [\<lparr>x = 0, y = 0, letter = CHR ''s''\<rparr>, \<lparr>x = 0, y = 35, letter = CHR ''s''\<rparr>],
          letterInstances =
            [\<lparr>x = 0, y = 0, letter = CHR ''s'', timestamp = 0, fadeout = 3500\<rparr>,
             \<lparr>x = 0, y = 0, letter = CHR ''s'', timestamp = 3500, fadeout = 5500\<rparr>],
          overlayCtx = [Configure,
             FillStyle (Num 0), ShadowColor (Num 0), FillText CHR ''s'' 0 35,
             FillStyle (Num 0), ShadowColor (Num 0), FillText CHR ''s'' 0 0,
             ClearRect 17 70,
             FillStyle (Num (- 1)), ShadowColor (Num (- 1)), FillText CHR ''s'' 0 35],
          rng = 6, clk = 5\<rparr>"
proof -
  have "(3500 - 2000) / ((2000 - 0) / 2) * pi = 3 / 2 * pi" by simp
  then have "sin ((3500 - 2000) / ((2000 - 0) / 2) * pi) = - 1"
    by (simp only: sin_3over2_pi)
  then have ease: "easeInOutSine 3500 0 2000 = Num (- 1)"
    using easeInOutSine_after [of 0 2000 3500] by simp
  have full: "easeInOutSine 3500 0 3500 = Num 1"
    using easeInOutSine_at_end [of 0 3500] by simp
  define st1 where "st1 = \<lparr>width = 17, height = 70, canvas_width = 17, canvas_height = 70,
          letterPositions = [\<lparr>x = 0, y = 0, letter = CHR ''s''\<rparr>, \<lparr>x = 0, y = 35, letter = CHR ''s''\<rparr>],
          letterInstances =
            [\<lparr>x = 0, y = 35, letter = CHR ''s'', timestamp = 0, fadeout = 2000\<rparr>,
             \<lparr>x = 0, y = 0, letter = CHR ''s'', timestamp = 0, fadeout = 3500\<rparr>],
          overlayCtx = [Configure,
             FillStyle (Num 0), ShadowColor (Num 0), FillText CHR ''s'' 0 35,
             FillStyle (Num 0), ShadowColor (Num 0), FillText CHR ''s'' 0 0,
             ClearRect 17 70],
          rng = 4, clk = 5::nat\<rparr>"
  have now: "date_now env_bug 4 = 3500" by (simp add: env_bug_def)
  have a: "redrawBackground env_bug (state_of (new_PageBackground env_bug 17 70 ''s''))
             = redraw_loop env_bug 3500 0 st1"
    by (simp add: seeded_bug redrawBackground_unfold now st1_def)
  have i0: "0 < length (letterInstances st1)" by (simp add: st1_def)
  have r0: "retires 3500 (letterInstances st1 ! 0)"
    by (simp add: st1_def retires_def ease)
  have s0: "getRandomAmountFromArray (math_random env_bug) (letterPositions st1) 1 (rng st1)
              = Inr ([Some \<lparr>x = 0, y = 0, letter = CHR ''s''\<rparr>], 5)"
    by (simp add: getRandomAmountFromArray_def env_bug_def Let_def arr_at_def taken_at_def st1_def)
  define st2 where "st2 = st1\<lparr>rng := 5 + 1,
               letterInstances := splice1 0 (letterInstances st1)
                   @ [replacement env_bug 3500 \<lparr>x = 0, y = 0, letter = CHR ''s''\<rparr> 5],
               overlayCtx := overlayCtx st1 @ draw_ops 3500 (letterInstances st1 ! 0)\<rparr>"
  have b: "redraw_loop env_bug 3500 0 st1 = redraw_loop env_bug 3500 (0 + 1) st2"
    unfolding st2_def by (rule redraw_loop_retire [OF i0 r0 s0])
  have l2: "letterInstances st2 =
            [\<lparr>x = 0, y = 0, letter = CHR ''s'', timestamp = 0, fadeout = 3500\<rparr>,
             \<lparr>x = 0, y = 0, letter = CHR ''s'', timestamp = 3500, fadeout = 5500\<rparr>]"
    by (simp add: st2_def st1_def splice1_def replacement_def env_bug_def animLength_def
        LETTER_FADE_DURATION_def)
  have c: "redraw_loop env_bug 3500 (0 + 1) st2 = redraw_loop env_bug 3500 (0 + 1 + 1) st2"
    by (rule redraw_loop_skip) (simp_all add: l2)
  have d: "redraw_loop env_bug 3500 (0 + 1 + 1) st2 = Inr st2"
    by (rule redraw_loop_done) (simp add: l2)
  have "st2 = \<lparr>width = 17, height = 70, canvas_width = 17, canvas_height = 70,
          letterPositions = [\<lparr>x = 0, y = 0, letter = CHR ''s''\<rparr>, \<lparr>x = 0, y = 35, letter = CHR ''s''\<rparr>],
          letterInstances =
            [\<lparr>x = 0, y = 0, letter = CHR ''s'', timestamp = 0, fadeout = 3500\<rparr>,
             \<lparr>x = 0, y = 0, letter = CHR ''s'', timestamp = 3500, fadeout = 5500\<rparr>],
          overlayCtx = [Configure,
             FillStyle (Num 0), ShadowColor (Num 0), FillText CHR ''s'' 0 35,
             FillStyle (Num 0), ShadowColor (Num 0), FillText CHR ''s'' 0 0,
             ClearRect 17 70,
             FillStyle (Num (- 1)), ShadowColor (Num (- 1)), FillText CHR ''s'' 0 35],
          rng = 6, clk = 5\<rparr>"
    using l2 by (simp add: st2_def st1_def draw_ops_def ease Let_def)
  then have "redrawBackground env_bug (state_of (new_PageBackground env_bug 17 70 ''s'')) =
       Inr \<lparr>width = 17, height = 70, canvas_width = 17, canvas_height = 70,
          letterPositions = [\<lparr>x = 0, y = 0, letter = CHR ''s''\<rparr>, \<lparr>x = 0, y = 35, letter = CHR ''s''\<rparr>],
          letterInstances =
            [\<lparr>x = 0, y = 0, letter = CHR ''s'', timestamp = 0, fadeout = 3500\<rparr>,
             \<lparr>x = 0, y = 0, letter = CHR ''s'', timestamp = 3500, fadeout = 5500\<rparr>],
          overlayCtx = [Configure,
             FillStyle (Num 0), ShadowColor (Num 0), FillText CHR ''s'' 0 35,
             FillStyle (Num 0), ShadowColor (Num 0), FillText CHR ''s'' 0 0,
             ClearRect 17 70,
             FillStyle (Num (- 1)), ShadowColor (Num (- 1)), FillText CHR ''s'' 0 35],
          rng = 6, clk = 5\<rparr>"
    using a b c d by simp
  moreover have "date_now env_bug (clk (state_of (new_PageBackground env_bug 17 70 ''s''))) = 3500"
    by (simp add: seeded_bug now)
  moreover have "letterInstances (state_of (new_PageBackground env_bug 17 70 ''s''))
     = [\<lparr>x = 0, y = 35, letter = CHR ''s'', timestamp = 0, fadeout = 2000\<rparr>,
        \<lparr>x = 0, y = 0, letter = CHR ''s'', timestamp = 0, fadeout = 3500\<rparr>]"
    by (simp add: seeded_bug)
  ultimately show ?thesis using full by blast
qed

end
